theory Spec2Isabelle
  imports Main "HOL-Library.Word"
begin

unbundle bit_operations_syntax

section \<open>The integer type of k-mer values\<close>

text \<open>
  \<^verbatim>\<open>Kmer<span>::Type\<close> is \<^verbatim>\<open>LargeInt<(span+31)/32>\<close>: an unsigned integer of that many
  64-bit limbs. A value of the type is a natural number below \<open>2 ^ Type_getSize span\<close>, and
  every operation that can leave that range has the wrap-around written out.
\<close>

type_synonym Type = nat

definition Type_getSize :: "nat \<Rightarrow> nat" where
  \<comment> \<open>Modelled from the spec: \<^verbatim>\<open>LargeInt::getSize\<close> (LargeInt.hpp is not among the sources);
      the width in bits of \<open>ceil(span/32)\<close> limbs of 64 bits.\<close>
  "Type_getSize span = 64 * ((span + 31) div 32)"

definition Type_wrap :: "nat \<Rightarrow> nat \<Rightarrow> Type" where
  "Type_wrap span x = x mod 2 ^ Type_getSize span"

definition Type_shl :: "nat \<Rightarrow> Type \<Rightarrow> nat \<Rightarrow> Type" where
  \<comment> \<open>\<^verbatim>\<open>operator<<\<close>: bits falling off the top are dropped.\<close>
  "Type_shl span x n = Type_wrap span (x * 2 ^ n)"

definition Type_shr :: "Type \<Rightarrow> nat \<Rightarrow> Type" where
  "Type_shr x n = x div 2 ^ n"

definition Type_add :: "nat \<Rightarrow> Type \<Rightarrow> Type \<Rightarrow> Type" where
  "Type_add span x y = Type_wrap span (x + y)"

definition Type_sub :: "nat \<Rightarrow> Type \<Rightarrow> Type \<Rightarrow> Type" where
  "Type_sub span x y = Type_wrap span (x + 2 ^ Type_getSize span - y)"

definition Type_mul :: "nat \<Rightarrow> Type \<Rightarrow> Type \<Rightarrow> Type" where
  "Type_mul span x y = Type_wrap span (x * y)"

definition getVal :: "Type \<Rightarrow> nat" where
  \<comment> \<open>Modelled from the spec: \<^verbatim>\<open>LargeInt::getVal\<close>, the low limb as a 64-bit integer.\<close>
  "getVal x = x mod 2 ^ 64"

definition comp_NT :: "nat list" where
  \<comment> \<open>Modelled from the spec: the global table \<^verbatim>\<open>comp_NT\<close> is declared \<^verbatim>\<open>extern\<close> only;
      with A=0, C=1, T=2, G=3 the complement of a code is the code with its high bit
      flipped.\<close>
  "comp_NT = [2, 3, 0, 1]"

fun revcomp :: "Type \<Rightarrow> nat \<Rightarrow> Type" where
  \<comment> \<open>Modelled from the spec: \<^verbatim>\<open>revcomp\<close> of LargeInt.hpp reverses the order of the
      \<open>sizeKmer\<close> low 2-bit digits and complements each of them.\<close>
  "revcomp x 0 = 0"
| "revcomp x (Suc k) = (comp_NT ! (x mod 4)) * 4 ^ k + revcomp (x div 4) k"

section \<open>K-mer values\<close>

record KmerDirect =
  kd_value :: Type
  kd_isValid :: bool

record KmerCanonical =
  table0 :: Type
  table1 :: Type
  choice :: nat
  isValid :: bool

definition kc_value :: "'a KmerCanonical_scheme \<Rightarrow> Type" where
  \<comment> \<open>\<^verbatim>\<open>value()\<close> returns \<^verbatim>\<open>table[choice]\<close>.\<close>
  "kc_value k = (if choice k = 0 then table0 k else table1 k)"

definition forward :: "'a KmerCanonical_scheme \<Rightarrow> Type" where
  "forward k = table0 k"

definition revcomp_of :: "'a KmerCanonical_scheme \<Rightarrow> Type" where
  \<comment> \<open>The accessor \<^verbatim>\<open>revcomp()\<close> of KmerCanonical.\<close>
  "revcomp_of k = table1 k"

definition updateChoice :: "'a KmerCanonical_scheme \<Rightarrow> 'a KmerCanonical_scheme" where
  "updateChoice k = k\<lparr>choice := (if table0 k < table1 k then 0 else 1)\<rparr>"

definition set2 :: "Type \<Rightarrow> Type \<Rightarrow> 'a KmerCanonical_scheme \<Rightarrow> 'a KmerCanonical_scheme" where
  \<comment> \<open>\<^verbatim>\<open>set (forward, revcomp)\<close>\<close>
  "set2 fw rc k = updateChoice (k\<lparr>table0 := fw, table1 := rc\<rparr>)"

definition set1 :: "Type \<Rightarrow> 'a KmerCanonical_scheme \<Rightarrow> 'a KmerCanonical_scheme" where
  \<comment> \<open>\<^verbatim>\<open>set (val)\<close>: not a forward/revcomp couple, used for the minimizer values.\<close>
  "set1 val k = set2 val val k"

definition KmerCanonical_new :: KmerCanonical where
  \<comment> \<open>A default-constructed \<^verbatim>\<open>KmerCanonical\<close>; C++ leaves its fields indeterminate, the
      model fixes them. Every user below overwrites the fields it reads.\<close>
  "KmerCanonical_new = \<lparr>table0 = 0, table1 = 0, choice = 0, isValid = False\<rparr>"

definition KmerDirect_new :: KmerDirect where
  "KmerDirect_new = \<lparr>kd_value = 0, kd_isValid = False\<rparr>"

record KmerMinimizer = KmerCanonical +
  minimizer :: KmerCanonical
  position :: int
  changed :: bool

definition KmerMinimizer_new :: KmerMinimizer where
  "KmerMinimizer_new = \<lparr>table0 = 0, table1 = 0, choice = 0, isValid = False,
     minimizer = KmerCanonical_new, position = 0, changed = False\<rparr>"

definition KmerCanonical_extract :: "'a KmerCanonical_scheme \<Rightarrow> Type \<Rightarrow> nat \<Rightarrow> Type list \<Rightarrow> KmerCanonical" where
  \<comment> \<open>\<^verbatim>\<open>KmerCanonical::extract\<close>: the table entry of the low m-mer of the forward strand.\<close>
  "KmerCanonical_extract k msk sz mmer_lut = set1 (mmer_lut ! getVal (table0 k AND msk)) KmerCanonical_new"

definition KmerCanonical_extractShift ::
  "nat \<Rightarrow> 'a KmerCanonical_scheme \<Rightarrow> Type \<Rightarrow> nat \<Rightarrow> Type list \<Rightarrow> KmerCanonical \<times> 'a KmerCanonical_scheme" where
  "KmerCanonical_extractShift span k msk sz mmer_lut =
     (let output = KmerCanonical_extract k msk sz mmer_lut;
          k1 = k\<lparr>table0 := Type_shr (table0 k) 2\<rparr>;
          k2 = k1\<lparr>table1 := Type_shl span (table1 k1) 2\<rparr>
      in (output, updateChoice k2))"

section \<open>Nucleotide decoders\<close>

type_synonym byte = "8 word"

text \<open>\<^verbatim>\<open>ConvertChar\<close>: the nucleotide value (A=0, C=1, T=2, G=3) and 0 if valid, 1 if invalid.\<close>

type_synonym ConvertChar = "nat \<times> nat"
type_synonym Convert = "byte list \<Rightarrow> nat \<Rightarrow> ConvertChar"

datatype Encoding_e = ASCII | INTEGER | BINARY

definition ConvertASCII :: Convert where
  "ConvertASCII buffer idx =
     (unat (drop_bit 1 (buffer ! idx) AND 3), unat (drop_bit 3 (buffer ! idx) AND 1))"

definition ConvertInteger :: Convert where
  \<comment> \<open>The byte is returned as it is. The code holds it in a \<^verbatim>\<open>char\<close>, whose sign is left to
      the platform; the bytes are read here as unsigned, which is the same value up to
      \<^verbatim>\<open>0x7F\<close>. The theorems take nucleotide codes, which are below 4.\<close>
  "ConvertInteger buffer idx = (unat (buffer ! idx), 0)"

definition ConvertBinary :: Convert where
  "ConvertBinary buffer idx =
     (unat (drop_bit ((3 - (idx AND 3)) * 2) (buffer ! (drop_bit 2 idx)) AND 3), 0)"

definition execute :: "Encoding_e \<Rightarrow> (Convert \<Rightarrow> 'r) \<Rightarrow> 'r" where
  \<comment> \<open>The \<^verbatim>\<open>default\<close> branch of the switch throws; the three tags of the enumeration are
      the only values of the datatype.\<close>
  "execute enc action =
     (case enc of ASCII \<Rightarrow> action ConvertASCII
                | INTEGER \<Rightarrow> action ConvertInteger
                | BINARY \<Rightarrow> action ConvertBinary)"

record Data =
  getBuffer :: "byte list"
  data_size :: nat
  getEncoding :: Encoding_e

section \<open>ModelAbstract\<close>

datatype Exception = PrecisionTooLow | BadMinimizerSize

record ModelAbstract =
  getSpan :: nat
  kmerSize :: nat
  kmerMask :: Type
  revcompTable :: "Type list"

definition ModelAbstract_new :: "nat \<Rightarrow> nat \<Rightarrow> Exception + ModelAbstract" where
  \<comment> \<open>The constructor. \<open>shift\<close> is computed on \<^verbatim>\<open>size_t\<close>; every theorem below has
      \<open>1 \<le> sizeKmer\<close>, where the subtraction does not wrap.\<close>
  "ModelAbstract_new span sizeKmer =
     (if sizeKmer \<ge> span then Inl PrecisionTooLow
      else
        let un = 1;
            msk = Type_sub span (Type_shl span un (sizeKmer * 2)) un;
            shift = 2 * (sizeKmer - 1)
        in Inr \<lparr>getSpan = span, kmerSize = sizeKmer, kmerMask = msk,
                revcompTable = map (\<lambda>i. Type_shl span (comp_NT ! i) shift) [0..<4]\<rparr>)"

definition getKmerSize :: "'a ModelAbstract_scheme \<Rightarrow> nat" where
  "getKmerSize M = kmerSize M"

definition getKmerMax :: "'a ModelAbstract_scheme \<Rightarrow> Type" where
  "getKmerMax M = kmerMask M"

definition reverse :: "'a ModelAbstract_scheme \<Rightarrow> Type \<Rightarrow> Type" where
  "reverse M kmer = revcomp kmer (kmerSize M)"

definition polynom_step :: "nat \<Rightarrow> Convert \<Rightarrow> byte list \<Rightarrow> int \<times> Type \<Rightarrow> nat \<Rightarrow> int \<times> Type" where
  \<comment> \<open>One round of the loop of \<^verbatim>\<open>polynom\<close>, on the pair (badIndex, kmer).\<close>
  "polynom_step span conv seq st i =
     (let c = conv seq i;
          kmer = Type_add span (Type_shl span (snd st) 2) (fst c);
          badIndex = (if snd c \<noteq> 0 then int i else fst st)
      in (badIndex, kmer))"

definition polynom :: "'a ModelAbstract_scheme \<Rightarrow> Convert \<Rightarrow> byte list \<Rightarrow> int \<times> Type" where
  \<comment> \<open>Returns (badIndex, kmer): -1 if valid, otherwise the index of the last bad character.\<close>
  "polynom M conv seq = foldl (polynom_step (getSpan M) conv seq) (-1, 0) [0..<kmerSize M]"

subsection \<open>Neighbors\<close>

definition iterateOutgoingNeighbors :: "'a ModelAbstract_scheme \<Rightarrow> Type \<Rightarrow> 8 word \<Rightarrow> Type list" where
  \<comment> \<open>The list of the values the functor is called with, in the order of the calls.\<close>
  "iterateOutgoingNeighbors M source msk =
     concat (map (\<lambda>nt.
        if msk AND push_bit nt 1 \<noteq> 0 then
          (let next1 = Type_add (getSpan M) (Type_mul (getSpan M) source 4) nt AND getKmerMax M;
               next2 = revcomp next1 (getKmerSize M)
           in [min next1 next2])
        else []) [0..<4])"

definition iterateIncomingNeighbors :: "'a ModelAbstract_scheme \<Rightarrow> Type \<Rightarrow> 8 word \<Rightarrow> Type list" where
  "iterateIncomingNeighbors M source msk =
     (let rev = revcomp source (getKmerSize M)
      in concat (map (\<lambda>nt.
        if msk AND push_bit nt 1 \<noteq> 0 then
          (let next1 = Type_add (getSpan M) (Type_mul (getSpan M) rev 4) (nt XOR 2) AND getKmerMax M;
               next2 = revcomp next1 (getKmerSize M)
           in [min next1 next2])
        else []) [0..<4]))"

definition iterateNeighbors :: "'a ModelAbstract_scheme \<Rightarrow> Type \<Rightarrow> 8 word \<Rightarrow> Type list" where
  "iterateNeighbors M source msk =
     iterateOutgoingNeighbors M source (drop_bit 0 msk AND 15)
     @ iterateIncomingNeighbors M source (drop_bit 4 msk AND 15)"

subsection \<open>Iteration\<close>

text \<open>
  \<^verbatim>\<open>ModelAbstract\<close> is given its implementation statically; here \<open>iterate\<close> takes the
  \<open>first\<close> and \<open>next\<close> of the implementation as arguments, and \<open>result0\<close> is the
  default-constructed result instance. The callback is modelled by the list of its
  calls (k-mer, index), in order.
\<close>

definition int32_of :: "int \<Rightarrow> int" where
  \<comment> \<open>The conversion to \<^verbatim>\<open>int32_t\<close> of a \<^verbatim>\<open>size_t\<close> expression.\<close>
  "int32_of x = sint (word_of_int x :: 32 word)"

definition iterate_step ::
  "(nat \<Rightarrow> 'k \<Rightarrow> bool \<Rightarrow> 'k) \<Rightarrow> nat \<Rightarrow> Convert \<Rightarrow> byte list
     \<Rightarrow> int \<times> 'k \<times> nat \<times> ('k \<times> nat) list \<Rightarrow> nat \<Rightarrow> int \<times> 'k \<times> nat \<times> ('k \<times> nat) list" where
  \<comment> \<open>One round of the loop of \<^verbatim>\<open>iterate\<close>, on (indexBadChar, result, idxComputed, calls).\<close>
  "iterate_step next_impl K conv seq st idx =
     (case st of (indexBadChar, result, idxComputed, calls) \<Rightarrow>
        let c = conv seq idx;
            indexBadChar' = (if snd c \<noteq> 0 then int K - 1 else indexBadChar - 1);
            result' = next_impl (fst c) result (indexBadChar' < 0);
            idxComputed' = idxComputed + 1
        in (indexBadChar', result', idxComputed', calls @ [(result', idxComputed')]))"

definition iterate ::
  "(Convert \<Rightarrow> byte list \<Rightarrow> 'k \<Rightarrow> int \<times> 'k) \<Rightarrow> (nat \<Rightarrow> 'k \<Rightarrow> bool \<Rightarrow> 'k) \<Rightarrow> 'k
     \<Rightarrow> nat \<Rightarrow> Convert \<Rightarrow> byte list \<Rightarrow> nat \<Rightarrow> bool \<times> ('k \<times> nat) list" where
  "iterate first_impl next_impl result0 K conv seq len =
     (let nbKmers = int32_of (int len - int K + 1)
      in if nbKmers \<le> 0 then (False, [])
         else
           let (indexBadChar, result) = first_impl conv seq result0;
               idxComputed = 0;
               st = foldl (iterate_step next_impl K conv seq)
                      (indexBadChar, result, idxComputed, [(result, idxComputed)]) [K..<len]
           in (True, snd (snd (snd st))))"

definition BuildFunctor :: "'k list \<Rightarrow> 'k \<times> nat \<Rightarrow> 'k list" where
  "BuildFunctor kmersBuffer call = kmersBuffer[snd call := fst call]"

definition resize :: "'k list \<Rightarrow> nat \<Rightarrow> 'k \<Rightarrow> 'k list" where
  \<comment> \<open>\<^verbatim>\<open>std::vector::resize\<close>, new elements default-constructed.\<close>
  "resize xs n d = take n xs @ replicate (n - length xs) d"

definition build ::
  "(Convert \<Rightarrow> byte list \<Rightarrow> 'k \<Rightarrow> int \<times> 'k) \<Rightarrow> (nat \<Rightarrow> 'k \<Rightarrow> bool \<Rightarrow> 'k) \<Rightarrow> 'k
     \<Rightarrow> nat \<Rightarrow> Data \<Rightarrow> 'k list \<Rightarrow> bool \<times> 'k list" where
  "build first_impl next_impl result0 K data kmersBuffer =
     (let nbKmers = int32_of (int (data_size data) - int K + 1)
      in if nbKmers \<le> 0 then (False, kmersBuffer)
         else
           let buf = resize kmersBuffer (nat nbKmers) result0;
               calls = snd (execute (getEncoding data)
                         (\<lambda>conv. iterate first_impl next_impl result0 K conv
                                    (getBuffer data) (data_size data)))
           in (True, foldl BuildFunctor buf calls))"

section \<open>ModelDirect and ModelCanonical\<close>

definition ModelDirect_first ::
  "ModelAbstract \<Rightarrow> Convert \<Rightarrow> byte list \<Rightarrow> KmerDirect \<Rightarrow> int \<times> KmerDirect" where
  "ModelDirect_first M conv buffer v =
     (let (result, kmer) = polynom M conv buffer;
          v1 = v\<lparr>kd_value := kmer\<rparr>;
          v2 = v1\<lparr>kd_isValid := result < 0\<rparr>
      in (result, v2))"

definition ModelDirect_next :: "ModelAbstract \<Rightarrow> nat \<Rightarrow> KmerDirect \<Rightarrow> bool \<Rightarrow> KmerDirect" where
  "ModelDirect_next M c v valid =
     (let v1 = v\<lparr>kd_value := Type_add (getSpan M) (Type_shl (getSpan M) (kd_value v) 2) c AND kmerMask M\<rparr>
      in v1\<lparr>kd_isValid := valid\<rparr>)"

definition ModelCanonical_first ::
  "ModelAbstract \<Rightarrow> Convert \<Rightarrow> byte list \<Rightarrow> 'a KmerCanonical_scheme \<Rightarrow> int \<times> 'a KmerCanonical_scheme" where
  "ModelCanonical_first M conv seq v =
     (let (result, kmer) = polynom M conv seq;
          v1 = v\<lparr>table0 := kmer\<rparr>;
          v2 = v1\<lparr>isValid := result < 0\<rparr>;
          v3 = v2\<lparr>table1 := reverse M (table0 v2)\<rparr>
      in (result, updateChoice v3))"

definition ModelCanonical_next ::
  "ModelAbstract \<Rightarrow> nat \<Rightarrow> 'a KmerCanonical_scheme \<Rightarrow> bool \<Rightarrow> 'a KmerCanonical_scheme" where
  "ModelCanonical_next M c v valid =
     (let v1 = v\<lparr>table0 := Type_add (getSpan M) (Type_shl (getSpan M) (table0 v) 2) c AND kmerMask M\<rparr>;
          v2 = v1\<lparr>table1 := Type_add (getSpan M) (Type_shr (table1 v1) 2) (revcompTable M ! c) AND kmerMask M\<rparr>;
          v3 = v2\<lparr>isValid := valid\<rparr>
      in updateChoice v3)"

definition ModelDirect_codeSeedRight ::
  "ModelAbstract \<Rightarrow> KmerDirect \<Rightarrow> byte \<Rightarrow> Encoding_e \<Rightarrow> KmerDirect" where
  \<comment> \<open>\<^verbatim>\<open>codeSeedRight\<close> through \<^verbatim>\<open>Functor_codeSeedRight\<close>, for ModelDirect.\<close>
  "ModelDirect_codeSeedRight M kmer nucl enc =
     execute enc (\<lambda>conv.
       let c = conv [nucl] 0;
           result = kmer
       in ModelDirect_next M (fst c) result (snd c = 0))"

definition ModelCanonical_codeSeedRight ::
  "ModelAbstract \<Rightarrow> KmerCanonical \<Rightarrow> byte \<Rightarrow> Encoding_e \<Rightarrow> KmerCanonical" where
  "ModelCanonical_codeSeedRight M kmer nucl enc =
     execute enc (\<lambda>conv.
       let c = conv [nucl] 0;
           result = kmer
       in ModelCanonical_next M (fst c) result (snd c = 0))"

definition ModelDirect_iterate :: "ModelAbstract \<Rightarrow> Data \<Rightarrow> bool \<times> (KmerDirect \<times> nat) list" where
  "ModelDirect_iterate M data =
     execute (getEncoding data) (\<lambda>conv.
       iterate (ModelDirect_first M) (ModelDirect_next M) KmerDirect_new (kmerSize M) conv
         (getBuffer data) (data_size data))"

definition ModelCanonical_iterate :: "ModelAbstract \<Rightarrow> Data \<Rightarrow> bool \<times> (KmerCanonical \<times> nat) list" where
  "ModelCanonical_iterate M data =
     execute (getEncoding data) (\<lambda>conv.
       iterate (ModelCanonical_first M) (ModelCanonical_next M) KmerCanonical_new (kmerSize M) conv
         (getBuffer data) (data_size data))"

definition ModelDirect_build :: "ModelAbstract \<Rightarrow> Data \<Rightarrow> KmerDirect list \<Rightarrow> bool \<times> KmerDirect list" where
  "ModelDirect_build M = build (ModelDirect_first M) (ModelDirect_next M) KmerDirect_new (kmerSize M)"

definition ModelCanonical_build ::
  "ModelAbstract \<Rightarrow> Data \<Rightarrow> KmerCanonical list \<Rightarrow> bool \<times> KmerCanonical list" where
  "ModelCanonical_build M =
     build (ModelCanonical_first M) (ModelCanonical_next M) KmerCanonical_new (kmerSize M)"

section \<open>ModelMinimizer\<close>

text \<open>
  The minimizer model over \<^verbatim>\<open>ModelCanonical\<close> (\<^verbatim>\<open>ModelMinimizer<ModelCanonical>\<close>, the one
  \<^verbatim>\<open>SuperKmer\<close> uses), with the default comparator \<^verbatim>\<open>ComparatorMinimizer\<close>. The election of
  the minimizer over \<^verbatim>\<open>ModelDirect\<close> follows in a section of its own.
\<close>

definition ComparatorMinimizer_init :: "'a ModelAbstract_scheme \<Rightarrow> Type" where
  "ComparatorMinimizer_init model = getKmerMax model"

definition ComparatorMinimizer_lt :: "Type \<Rightarrow> Type \<Rightarrow> bool" where
  \<comment> \<open>\<^verbatim>\<open>operator()\<close> of the comparator.\<close>
  "ComparatorMinimizer_lt current best = (current < best)"

definition is_allowed :: "32 word \<Rightarrow> 32 word \<Rightarrow> bool" where
  \<comment> \<open>\<^verbatim>\<open>1 << ((len-2)*2)\<close> is a shift of an \<^verbatim>\<open>int\<close> by an \<^verbatim>\<open>uint32_t\<close> count, and the
      difference is converted to \<^verbatim>\<open>u_int64_t\<close> with its sign. C++ defines the shift for
      counts up to 30 only, that is for \<open>2 \<le> len \<le> 17\<close>; the theorems on \<open>is_allowed\<close>
      stay in that range.\<close>
  "is_allowed mmer len =
     (let mmask_m1 = (scast (push_bit (unat ((len - 2) * 2)) (1 :: 32 word) - 1) :: 64 word);
          mask_0101 = (0x5555555555555555 :: 64 word);
          mask_ma1 = mask_0101 AND mmask_m1;
          a1 = (ucast mmer :: 64 word);
          a1 = NOT (a1 OR drop_bit 2 a1);
          a1 = (drop_bit 1 a1 AND a1) AND mask_ma1
      in if a1 \<noteq> 0 then False else True)"

record ModelMinimizer = ModelAbstract +
  kmerModel :: ModelAbstract
  miniModel :: ModelAbstract
  nbMinimizers :: nat
  mm_mask :: Type
  mmer_lut :: "Type list"
  mm_shift :: nat
  minimizerDefault :: KmerCanonical

definition mmer_lut_entry :: "Type \<Rightarrow> nat \<Rightarrow> nat \<Rightarrow> Type" where
  \<comment> \<open>The body of the loop that fills \<^verbatim>\<open>_mmer_lut\<close>, for the index \<open>ii\<close>.\<close>
  "mmer_lut_entry msk minimizerSize ii =
     (let mmer = ii;
          rev_mmer = revcomp mmer minimizerSize;
          mmer = (if rev_mmer < mmer then rev_mmer else mmer);
          mmer = (if \<not> is_allowed (word_of_nat (getVal mmer)) (word_of_nat minimizerSize)
                  then msk else mmer)
      in mmer)"

definition ModelMinimizer_new :: "nat \<Rightarrow> nat \<Rightarrow> nat \<Rightarrow> Exception + ModelMinimizer" where
  \<comment> \<open>The constructor: the base class and the two member models first (each may throw),
      then the body. \<^verbatim>\<open>_mask\<close> and \<^verbatim>\<open>nbminims_total\<close> are computed on \<^verbatim>\<open>u_int64_t\<close>.\<close>
  "ModelMinimizer_new span kmerSz minimizerSize =
     (case ModelAbstract_new span kmerSz of Inl e \<Rightarrow> Inl e | Inr base \<Rightarrow>
     (case ModelAbstract_new span kmerSz of Inl e \<Rightarrow> Inl e | Inr km \<Rightarrow>
     (case ModelAbstract_new span minimizerSize of Inl e \<Rightarrow> Inl e | Inr mm \<Rightarrow>
        if kmerSz \<le> minimizerSize then Inl BadMinimizerSize
        else
          let nb = getKmerSize km - getKmerSize mm + 1;
              msk = unat (push_bit (2 * getKmerSize mm) (1 :: 64 word) - 1);
              shift = 2 * (nb - 1);
              tmp = ComparatorMinimizer_init mm;
              nbminims_total = unat (push_bit (2 * getKmerSize mm) (1 :: 64 word))
          in Inr \<lparr>getSpan = getSpan base, kmerSize = kmerSize base, kmerMask = kmerMask base,
                  revcompTable = revcompTable base,
                  kmerModel = km, miniModel = mm, nbMinimizers = nb, mm_mask = msk,
                  mmer_lut = map (mmer_lut_entry msk minimizerSize) [0..<nbminims_total],
                  mm_shift = shift, minimizerDefault = set1 tmp KmerCanonical_new\<rparr>)))"

definition computeNewMinimizer_step ::
  "ModelMinimizer \<Rightarrow> KmerMinimizer \<times> KmerMinimizer \<Rightarrow> nat \<Rightarrow> KmerMinimizer \<times> KmerMinimizer" where
  \<comment> \<open>One round of the loop of \<^verbatim>\<open>computeNewMinimizer\<close>, on the pair (kmer, loop).\<close>
  "computeNewMinimizer_step M st idx =
     (case st of (kmer, loop) \<Rightarrow>
        let (mmer, loop') = KmerCanonical_extractShift (getSpan M) loop (mm_mask M) (mm_shift M) (mmer_lut M)
        in if ComparatorMinimizer_lt (kc_value mmer) (kc_value (minimizer kmer))
           then (kmer\<lparr>minimizer := mmer, position := int idx\<rparr>, loop')
           else (kmer, loop'))"

definition computeNewMinimizer :: "ModelMinimizer \<Rightarrow> KmerMinimizer \<Rightarrow> KmerMinimizer" where
  "computeNewMinimizer M kmer =
     (let kmer = kmer\<lparr>minimizer := minimizerDefault M\<rparr>;
          kmer = kmer\<lparr>position := -1\<rparr>;
          kmer = kmer\<lparr>changed := True\<rparr>;
          loop = kmer
      in fst (foldl (computeNewMinimizer_step M) (kmer, loop) (rev [0..<nbMinimizers M])))"

definition ModelMinimizer_first ::
  "ModelMinimizer \<Rightarrow> Convert \<Rightarrow> byte list \<Rightarrow> KmerMinimizer \<Rightarrow> int \<times> KmerMinimizer" where
  "ModelMinimizer_first M conv seq kmer =
     (let (result, kmer) = ModelCanonical_first (kmerModel M) conv seq kmer
      in (result, computeNewMinimizer M kmer))"

definition ModelMinimizer_next ::
  "ModelMinimizer \<Rightarrow> nat \<Rightarrow> KmerMinimizer \<Rightarrow> bool \<Rightarrow> KmerMinimizer" where
  "ModelMinimizer_next M c kmer valid =
     (let kmer = ModelCanonical_next (kmerModel M) c kmer valid;
          kmer = kmer\<lparr>isValid := valid\<rparr>;
          mmer = KmerCanonical_extract kmer (mm_mask M) (mm_shift M) (mmer_lut M);
          kmer = kmer\<lparr>position := position kmer - 1\<rparr>;
          kmer = kmer\<lparr>changed := False\<rparr>
      in if ComparatorMinimizer_lt (kc_value mmer) (kc_value (minimizer kmer))
         then kmer\<lparr>minimizer := mmer, position := int (nbMinimizers M) - 1, changed := True\<rparr>
         else if position kmer < 0 then computeNewMinimizer M kmer
         else kmer)"

definition ModelMinimizer_codeSeedRight ::
  "ModelMinimizer \<Rightarrow> KmerMinimizer \<Rightarrow> byte \<Rightarrow> Encoding_e \<Rightarrow> KmerMinimizer" where
  "ModelMinimizer_codeSeedRight M kmer nucl enc =
     execute enc (\<lambda>conv.
       let c = conv [nucl] 0;
           result = kmer
       in ModelMinimizer_next M (fst c) result (snd c = 0))"

definition ModelMinimizer_iterate :: "ModelMinimizer \<Rightarrow> Data \<Rightarrow> bool \<times> (KmerMinimizer \<times> nat) list" where
  "ModelMinimizer_iterate M data =
     execute (getEncoding data) (\<lambda>conv.
       iterate (ModelMinimizer_first M) (ModelMinimizer_next M) KmerMinimizer_new (kmerSize M) conv
         (getBuffer data) (data_size data))"

definition ModelMinimizer_build ::
  "ModelMinimizer \<Rightarrow> Data \<Rightarrow> KmerMinimizer list \<Rightarrow> bool \<times> KmerMinimizer list" where
  "ModelMinimizer_build M =
     build (ModelMinimizer_first M) (ModelMinimizer_next M) KmerMinimizer_new (kmerSize M)"

section \<open>ModelMinimizer over ModelDirect\<close>

text \<open>
  \<^verbatim>\<open>ModelMinimizer\<close> is a template over the base model. Over \<^verbatim>\<open>ModelDirect\<close> the k-mer and its
  minimizer are \<^verbatim>\<open>KmerDirect\<close> values, the constructor is the same (the default minimizer
  is set to the value that the comparator gives, \<^verbatim>\<open>getKmerMax\<close> of the m-mer model), and
  \<^verbatim>\<open>KmerDirect::extract\<close> masks the value without reading the lookup table.
\<close>

record KmerMinimizerDirect = KmerDirect +
  md_minimizer :: KmerDirect
  md_position :: int
  md_changed :: bool

definition KmerMinimizerDirect_new :: KmerMinimizerDirect where
  "KmerMinimizerDirect_new = \<lparr>kd_value = 0, kd_isValid = False,
     md_minimizer = KmerDirect_new, md_position = 0, md_changed = False\<rparr>"

definition KmerDirect_extract :: "'a KmerDirect_scheme \<Rightarrow> Type \<Rightarrow> nat \<Rightarrow> Type list \<Rightarrow> KmerDirect" where
  \<comment> \<open>\<^verbatim>\<open>KmerDirect::extract\<close>: \<^verbatim>\<open>output.set (this->value() & mask)\<close>.\<close>
  "KmerDirect_extract k msk sz lut = KmerDirect_new\<lparr>kd_value := kd_value k AND msk\<rparr>"

definition KmerDirect_extractShift ::
  "'a KmerDirect_scheme \<Rightarrow> Type \<Rightarrow> nat \<Rightarrow> Type list \<Rightarrow> KmerDirect \<times> 'a KmerDirect_scheme" where
  "KmerDirect_extractShift k msk sz lut =
     (let output = KmerDirect_extract k msk sz lut
      in (output, k\<lparr>kd_value := Type_shr (kd_value k) 2\<rparr>))"

definition minimizerDefault_direct :: "ModelMinimizer \<Rightarrow> KmerDirect" where
  \<comment> \<open>\<^verbatim>\<open>_cmp.init (getMmersModel(), tmp); _minimizerDefault.set (tmp)\<close> on a \<^verbatim>\<open>KmerDirect\<close>.\<close>
  "minimizerDefault_direct M = KmerDirect_new\<lparr>kd_value := ComparatorMinimizer_init (miniModel M)\<rparr>"

definition computeNewMinimizer_direct_step ::
  "ModelMinimizer \<Rightarrow> KmerMinimizerDirect \<times> KmerMinimizerDirect \<Rightarrow> nat
     \<Rightarrow> KmerMinimizerDirect \<times> KmerMinimizerDirect" where
  "computeNewMinimizer_direct_step M st idx =
     (case st of (kmer, loop) \<Rightarrow>
        let (mmer, loop') = KmerDirect_extractShift loop (mm_mask M) (mm_shift M) (mmer_lut M)
        in if ComparatorMinimizer_lt (kd_value mmer) (kd_value (md_minimizer kmer))
           then (kmer\<lparr>md_minimizer := mmer, md_position := int idx\<rparr>, loop')
           else (kmer, loop'))"

definition computeNewMinimizer_direct :: "ModelMinimizer \<Rightarrow> KmerMinimizerDirect \<Rightarrow> KmerMinimizerDirect" where
  "computeNewMinimizer_direct M kmer =
     (let kmer = kmer\<lparr>md_minimizer := minimizerDefault_direct M\<rparr>;
          kmer = kmer\<lparr>md_position := -1\<rparr>;
          kmer = kmer\<lparr>md_changed := True\<rparr>;
          loop = kmer
      in fst (foldl (computeNewMinimizer_direct_step M) (kmer, loop) (rev [0..<nbMinimizers M])))"

definition getMinimizerValue_direct :: "ModelMinimizer \<Rightarrow> Type \<Rightarrow> nat" where
  \<comment> \<open>\<^verbatim>\<open>getMinimizerValue\<close>: \<^verbatim>\<open>Kmer km; km.set (k); computeNewMinimizer (km)\<close>.\<close>
  "getMinimizerValue_direct M k =
     (let km = KmerMinimizerDirect_new\<lparr>kd_value := k\<rparr>;
          km = computeNewMinimizer_direct M km
      in getVal (kd_value (md_minimizer km)))"

section \<open>SuperKmer\<close>

record SuperKmer =
  sk_kmerSize :: nat
  sk_miniSize :: nat
  sk_minimizer :: nat
  kmers :: "KmerMinimizer list"
  range :: "nat \<times> nat"

definition DEFAULT_MINIMIZER :: nat where
  "DEFAULT_MINIMIZER = 1000000000"

definition SuperKmer_new :: "nat \<Rightarrow> nat \<Rightarrow> KmerMinimizer list \<Rightarrow> SuperKmer" where
  "SuperKmer_new kmerSz miniSz ks =
     (let sk = \<lparr>sk_kmerSize = kmerSz, sk_miniSize = miniSz, sk_minimizer = DEFAULT_MINIMIZER,
                kmers = ks, range = (0, 0)\<rparr>
      in if ks = [] then
           (let ks' = resize ks kmerSz KmerMinimizer_new
            in sk\<lparr>kmers := ks', range := (0, length ks' - 1)\<rparr>)
         else sk)"

definition sk_at :: "SuperKmer \<Rightarrow> nat \<Rightarrow> KmerMinimizer" where
  \<comment> \<open>\<^verbatim>\<open>operator[]\<close>\<close>
  "sk_at sk idx = kmers sk ! (idx + fst (range sk))"

definition sk_size :: "SuperKmer \<Rightarrow> nat" where
  \<comment> \<open>\<^verbatim>\<open>range.second - range.first + 1\<close> on \<^verbatim>\<open>size_t\<close> (64 bits): the difference wraps when
      \<open>first\<close> is above \<open>second\<close>.\<close>
  "sk_size sk = (snd (range sk) + 2 ^ 64 - fst (range sk) + 1) mod 2 ^ 64"

definition save :: "nat \<Rightarrow> SuperKmer \<Rightarrow> Type list \<Rightarrow> Type list" where
  \<comment> \<open>The bag is the list of the values inserted so far.\<close>
  "save span sk bag =
     (let superKmerLen = sk_size sk;
          masknt = 3;
          nbK = Type_wrap span (sk_size sk);
          compactedK = foldl (\<lambda>compactedK ii.
                          let compactedK = Type_shl span compactedK 2
                          in compactedK OR (forward (sk_at sk ii) AND masknt))
                         0 [1..<superKmerLen];
          maxs = Type_getSize span - 8;
          compactedK = compactedK OR Type_shl span nbK maxs
      in bag @ [compactedK, forward (sk_at sk 0)])"

text \<open>
  The loop of \<open>load\<close>. The code writes \<^verbatim>\<open>kmers[ii]\<close> without resizing the vector, which C++
  leaves undefined past its end; the list update below does nothing there, and the
  lemmas on \<open>load\<close> take a vector that holds the \<open>nbK\<close> k-mers.
\<close>

function load_loop ::
  "nat \<Rightarrow> Type \<Rightarrow> nat \<Rightarrow> Type \<Rightarrow> nat \<Rightarrow> nat \<Rightarrow> nat \<Rightarrow> Type \<Rightarrow> Type \<Rightarrow> KmerMinimizer list
     \<Rightarrow> KmerMinimizer list" where
  "load_loop span kmerMsk shift superk nbK ii rem temp rev_temp ks =
     (if ii < nbK then
        (let ks = ks[ii := set2 rev_temp temp (ks ! ii)]
         in if rem < 2 then ks
            else
              let newnt = Type_shr superk (2 * (rem - 2)) AND 3;
                  temp = (Type_shl span temp 2 OR newnt) AND kmerMsk;
                  newnt = comp_NT ! getVal newnt;
                  rev_temp = (Type_shr rev_temp 2 OR Type_shl span newnt shift) AND kmerMsk
              in load_loop span kmerMsk shift superk nbK (ii + 1) (rem - 1) temp rev_temp ks)
      else ks)"
  by pat_completeness auto
termination
  by (relation "measure (\<lambda>(span, kmerMsk, shift, superk, nbK, ii, rem, temp, rev_temp, ks). nbK - ii)") auto

declare load_loop.simps [simp del]

definition load :: "nat \<Rightarrow> SuperKmer \<Rightarrow> Type \<Rightarrow> Type \<Rightarrow> SuperKmer" where
  \<comment> \<open>The two items read from the iterator are \<open>superk\<close> and \<open>seedk\<close>. \<^verbatim>\<open>nbK\<close> and \<^verbatim>\<open>rem\<close>
      are \<^verbatim>\<open>u_int8_t\<close>; \<open>rem\<close> is only decremented while it is at least 2.\<close>
  "load span sk superk seedk =
     (let compactedK = superk;
          ks = sk_kmerSize sk;
          un = 1;
          shift_val = Type_getSize span - 8;
          kmerMsk = Type_sub span (Type_shl span un (ks * 2)) un;
          shift = 2 * (ks - 1);
          nbK = getVal (Type_shr compactedK shift_val) AND 255;
          rem = nbK;
          temp = seedk;
          rev_temp = revcomp temp ks
      in sk\<lparr>kmers := load_loop span kmerMsk shift superk nbK 0 rem temp rev_temp (kmers sk)\<rparr>)"

section \<open>K-mers produced by a model\<close>


definition mmer_at :: "ModelMinimizer \<Rightarrow> 'a KmerCanonical_scheme \<Rightarrow> nat \<Rightarrow> Type" where
  \<comment> \<open>The table entry of the m-mer of a k-mer at the shift \<open>2i\<close>:
      \<^verbatim>\<open>mmerLut[(forward >> 2i) & mmerMask]\<close>.\<close>
  "mmer_at M k i = mmer_lut M ! getVal (Type_shr (table0 k) (2 * i) AND mm_mask M)"

text \<open>The k-mers a minimizer model produces, by \<open>first\<close> and by \<open>next\<close> as above.\<close>

inductive minimizer_produced :: "ModelMinimizer \<Rightarrow> KmerMinimizer \<Rightarrow> bool" for M where
  m_first: "minimizer_produced M (snd (ModelMinimizer_first M conv seq k0))"
| m_next: "minimizer_produced M k \<Longrightarrow> c < 4 \<Longrightarrow> minimizer_produced M (ModelMinimizer_next M c k valid)"

fun kmers_from :: "ModelMinimizer \<Rightarrow> KmerMinimizer \<Rightarrow> (nat \<times> bool) list \<Rightarrow> KmerMinimizer list" where
  \<comment> \<open>A run of consecutive k-mers of one sequence: a k-mer and the k-mers that \<open>next\<close>
      makes from it with the following symbols (code and validity), as \<open>iterate\<close> does.\<close>
  "kmers_from M k [] = [k]"
| "kmers_from M k (c # cs) = k # kmers_from M (ModelMinimizer_next M (fst c) k (snd c)) cs"

definition minimizer_inv :: "ModelMinimizer \<Rightarrow> KmerMinimizer \<Rightarrow> bool" where
  \<comment> \<open>The invariant of the minimizer fields: the minimizer is a lower bound of the window,
      and either no m-mer is below the default and the position is -1, or the position
      (counted from the left end of the k-mer) marks an m-mer equal to the minimizer.\<close>
  "minimizer_inv M k \<longleftrightarrow>
     (\<forall>j<nbMinimizers M. kc_value (minimizer k) \<le> mmer_at M k j) \<and>
     ((position k = -1 \<and> kc_value (minimizer k) = mm_mask M) \<or>
      (0 \<le> position k \<and> position k < int (nbMinimizers M) \<and> kc_value (minimizer k) < mm_mask M \<and>
       mmer_at M k (nbMinimizers M - 1 - nat (position k)) = kc_value (minimizer k)))"

section \<open>Concrete inputs\<close>

definition ascii :: "string \<Rightarrow> byte list" where
  \<comment> \<open>The bytes of an ASCII buffer.\<close>
  "ascii s = map (\<lambda>c. word_of_nat (of_char c)) s"

section \<open>Notions used to state the properties of iterate\<close>

definition decode :: "Data \<Rightarrow> nat \<Rightarrow> ConvertChar" where
  \<comment> \<open>The symbol at index \<open>i\<close> of a data object, through the decoder of its encoding.\<close>
  "decode d i = execute (getEncoding d) (\<lambda>conv. conv (getBuffer d) i)"

definition decoder :: "Data \<Rightarrow> Convert" where
  "decoder d = execute (getEncoding d) (\<lambda>conv. conv)"

fun lastbad :: "Convert \<Rightarrow> byte list \<Rightarrow> nat \<Rightarrow> int" where
  \<comment> \<open>The index of the last invalid symbol among the first \<open>n\<close>, or -1.\<close>
  "lastbad conv seq 0 = -1"
| "lastbad conv seq (Suc n) = (if snd (conv seq n) \<noteq> 0 then int n else lastbad conv seq n)"



primrec run :: "(nat \<Rightarrow> 'k \<Rightarrow> bool \<Rightarrow> 'k) \<Rightarrow> nat \<Rightarrow> Convert \<Rightarrow> byte list \<Rightarrow> int \<times> 'k \<Rightarrow> nat \<Rightarrow> int \<times> 'k" where
  \<comment> \<open>(indexBadChar, result) after \<open>j\<close> rounds of the loop of \<open>iterate\<close>.\<close>
  "run next_impl K conv seq st0 0 = st0"
| "run next_impl K conv seq st0 (Suc j) =
     (let st = run next_impl K conv seq st0 j;
          c = conv seq (K + j);
          indexBadChar' = (if snd c \<noteq> 0 then int K - 1 else fst st - 1)
      in (indexBadChar', next_impl (fst c) (snd st) (indexBadChar' < 0)))"

section \<open>Arithmetic of the k-mer type\<close>

lemma pow4_eq: "(4::nat) ^ k = 2 ^ (2 * k)"
  by (simp add: power_mult)

lemma Type_getSize_ge: "K < span \<Longrightarrow> 2 * K + 2 \<le> Type_getSize span"
  unfolding Type_getSize_def by arith

lemma and_mask4: "(x::nat) AND (4 ^ k - 1) = x mod 4 ^ k"
proof -
  have "(4::nat) ^ k - 1 = mask (2 * k)" by (simp add: mask_eq_exp_minus_1 pow4_eq)
  then show ?thesis by (simp add: pow4_eq take_bit_eq_mod flip: take_bit_eq_mask)
qed

lemma pow4_dvd_size: "K < span \<Longrightarrow> (4::nat) ^ K dvd 2 ^ Type_getSize span"
  using Type_getSize_ge [of K span] by (simp add: pow4_eq le_imp_power_dvd)

lemma pow4_lt_size: "K < span \<Longrightarrow> (4::nat) ^ K * 4 \<le> 2 ^ Type_getSize span"
proof -
  assume "K < span"
  then have "2 * K + 2 \<le> Type_getSize span" by (rule Type_getSize_ge)
  then have "(2::nat) ^ (2 * K + 2) \<le> 2 ^ Type_getSize span"
    by (rule power_increasing) simp
  then show ?thesis by (simp add: pow4_eq power_add)
qed

lemma Type_mask_value:
  assumes "K < span"
  shows "Type_sub span (Type_shl span 1 (K * 2)) 1 = 4 ^ K - 1"
proof -
  let ?W = "Type_getSize span"
  have "(4::nat) ^ K * 4 \<le> 2 ^ ?W" by (rule pow4_lt_size [OF assms])
  moreover have pos: "(0::nat) < 4 ^ K" by simp
  ultimately have lt: "(4::nat) ^ K < 2 ^ ?W" by linarith
  have shl: "Type_shl span 1 (K * 2) = 4 ^ K"
    using lt by (simp add: Type_shl_def Type_wrap_def pow4_eq mult.commute)
  have "(4::nat) ^ K + 2 ^ ?W - 1 = (4 ^ K - 1) + 2 ^ ?W" using pos by simp
  moreover have "(4::nat) ^ K - 1 < 2 ^ ?W" using lt by simp
  ultimately have "(4 ^ K + 2 ^ ?W - 1) mod 2 ^ ?W = (4::nat) ^ K - 1"
    by (simp only: mod_add_self2 mod_less)
  then show ?thesis unfolding Type_sub_def Type_wrap_def shl .
qed

lemma four_dvd_size: "K < span \<Longrightarrow> (4::nat) dvd 2 ^ Type_getSize span"
proof -
  assume "K < span"
  then have "2 \<le> Type_getSize span" using Type_getSize_ge [of K span] by simp
  then have "(2::nat) ^ 2 dvd 2 ^ Type_getSize span" by (rule le_imp_power_dvd)
  then show ?thesis by simp
qed

lemma shl2_add:
  assumes "K < span" "c < 4"
  shows "Type_add span (Type_shl span f 2) c = (f * 4) mod 2 ^ Type_getSize span + c"
proof -
  let ?W = "2 ^ Type_getSize span :: nat"
  obtain q where q: "?W = 4 * q" using four_dvd_size [OF assms(1)] by (auto elim: dvdE)
  have "(f * 4) mod ?W = 4 * (f mod q)" unfolding q by (simp add: mult.commute)
  moreover have "f mod q < q" using q by (intro mod_less_divisor) (cases "q = 0", auto)
  ultimately have "(f * 4) mod ?W + c < ?W" using assms(2) q by linarith
  then show ?thesis by (simp add: Type_add_def Type_shl_def Type_wrap_def)
qed

lemma shl2_add_mask:
  assumes "K < span" "c < 4"
  shows "Type_add span (Type_shl span f 2) c AND (4 ^ K - 1) = (f * 4 + c) mod 4 ^ K"
proof -
  have "((f * 4) mod 2 ^ Type_getSize span + c) mod 4 ^ K = (f * 4 + c) mod 4 ^ K"
    using pow4_dvd_size [OF assms(1)] by (metis mod_add_left_eq mod_mod_cancel)
  then show ?thesis unfolding shl2_add [OF assms] and_mask4 .
qed

section \<open>revcomp\<close>

lemma comp_NT_lt: "c < 4 \<Longrightarrow> comp_NT ! c < 4"
  unfolding comp_NT_def by (cases c rule: nat.exhaust; simp add: nth_Cons split: nat.splits)

lemma comp_NT_invol: "c < 4 \<Longrightarrow> comp_NT ! (comp_NT ! c) = c"
  unfolding comp_NT_def by (simp add: nth_Cons split: nat.splits)

lemma revcomp_lt: "revcomp x k < 4 ^ k"
proof (induction k arbitrary: x)
  case 0 show ?case by simp
next
  case (Suc k)
  have "comp_NT ! (x mod 4) \<le> 3" using comp_NT_lt [of "x mod 4"] by simp
  then have "comp_NT ! (x mod 4) * 4 ^ k \<le> 3 * 4 ^ k" by simp
  moreover have "revcomp (x div 4) k < 4 ^ k" by (rule Suc.IH)
  ultimately show ?case unfolding revcomp.simps power_Suc by linarith
qed

lemma revcomp_snoc:
  "revcomp x (Suc k) = 4 * revcomp x k + comp_NT ! ((x div 4 ^ k) mod 4)"
proof (induction k arbitrary: x)
  case 0 show ?case by simp
next
  case (Suc k)
  have "revcomp x (Suc (Suc k)) = comp_NT ! (x mod 4) * 4 ^ Suc k + revcomp (x div 4) (Suc k)"
    by simp
  also have "revcomp (x div 4) (Suc k) = 4 * revcomp (x div 4) k + comp_NT ! ((x div 4 div 4 ^ k) mod 4)"
    by (rule Suc.IH)
  finally show ?case by (simp add: div_mult2_eq algebra_simps)
qed

lemma revcomp_mod: "revcomp (x mod 4 ^ k) k = revcomp x k"
proof (induction k arbitrary: x)
  case 0 show ?case by simp
next
  case (Suc k)
  have a: "x mod 4 ^ Suc k mod 4 = x mod 4"
    by (simp add: mod_mod_cancel)
  have b: "x mod 4 ^ Suc k div 4 = (x div 4) mod 4 ^ k"
    by (simp add: mod_mult2_eq)
  show ?case by (simp only: revcomp.simps a b Suc.IH)
qed

lemma revcomp_div4: "revcomp x (Suc k) div 4 = revcomp x k"
proof -
  have "comp_NT ! ((x div 4 ^ k) mod 4) < 4" by (rule comp_NT_lt) simp
  then have "(4 * revcomp x k + comp_NT ! ((x div 4 ^ k) mod 4)) div 4 = revcomp x k" by simp
  then show ?thesis by (simp only: revcomp_snoc)
qed

lemma revcomp_invol: "revcomp (revcomp x k) k = x mod 4 ^ k"
proof (induction k arbitrary: x)
  case 0 show ?case by simp
next
  case (Suc k)
  let ?y = "revcomp x (Suc k)"
  have y: "?y = comp_NT ! (x mod 4) * 4 ^ k + revcomp (x div 4) k" by simp
  have lt: "revcomp (x div 4) k < 4 ^ k" by (rule revcomp_lt)
  have hi: "?y div 4 ^ k = comp_NT ! (x mod 4)" unfolding y using lt by simp
  have lo: "?y mod 4 ^ k = revcomp (x div 4) k" unfolding y using lt by simp
  have "revcomp ?y (Suc k) = 4 * revcomp ?y k + comp_NT ! ((?y div 4 ^ k) mod 4)"
    by (rule revcomp_snoc)
  also have "revcomp ?y k = revcomp (?y mod 4 ^ k) k" by (rule revcomp_mod [symmetric])
  also have "\<dots> = (x div 4) mod 4 ^ k" unfolding lo by (rule Suc.IH)
  also have "comp_NT ! ((?y div 4 ^ k) mod 4) = x mod 4"
    unfolding hi using comp_NT_lt [of "x mod 4"] comp_NT_invol [of "x mod 4"] by simp
  finally show ?case by (simp add: mod_mult2_eq)
qed

lemma revcomp_slide:
  assumes "c < 4"
  shows "revcomp ((f * 4 + c) mod 4 ^ Suc k) (Suc k) = revcomp f (Suc k) div 4 + comp_NT ! c * 4 ^ k"
proof -
  have "revcomp ((f * 4 + c) mod 4 ^ Suc k) (Suc k) = revcomp (f * 4 + c) (Suc k)"
    by (rule revcomp_mod)
  also have "\<dots> = comp_NT ! c * 4 ^ k + revcomp f k" using assms by simp
  also have "\<dots> = revcomp f (Suc k) div 4 + comp_NT ! c * 4 ^ k"
    by (simp only: revcomp_div4 add.commute)
  finally show ?thesis .
qed


lemma or_add_nat:
  fixes a b :: nat
  assumes "b < 2 ^ n"
  shows "(a * 2 ^ n) OR b = a * 2 ^ n + b"
proof -
  have "push_bit n a AND take_bit n b = 0"
    by (rule bit_eqI) (simp add: bit_simps)
  then have "push_bit n a + take_bit n b = push_bit n a OR take_bit n b"
    by (rule disjunctive_add_eq_or)
  moreover have "take_bit n b = b" using assms by (simp add: take_bit_nat_eq_self)
  ultimately show ?thesis by (simp add: push_bit_eq_mult)
qed

section \<open>Model facts\<close>

lemma ModelAbstract_new_Inr:
  assumes "ModelAbstract_new span K = Inr M"
  shows "K < span" "getSpan M = span" "kmerSize M = K" "kmerMask M = 4 ^ K - 1"
    "revcompTable M = map (\<lambda>i. Type_shl span (comp_NT ! i) (2 * (K - 1))) [0..<4]"
proof -
  show lt: "K < span" using assms by (auto simp: ModelAbstract_new_def split: if_splits)
  have M: "M = \<lparr>getSpan = span, kmerSize = K,
      kmerMask = Type_sub span (Type_shl span 1 (K * 2)) 1,
      revcompTable = map (\<lambda>i. Type_shl span (comp_NT ! i) (2 * (K - 1))) [0..<4]\<rparr>"
    using assms lt by (simp add: ModelAbstract_new_def Let_def)
  show "getSpan M = span" "kmerSize M = K" by (simp_all add: M)
  show "kmerMask M = 4 ^ K - 1" unfolding M using Type_mask_value [OF lt] by simp
  show "revcompTable M = map (\<lambda>i. Type_shl span (comp_NT ! i) (2 * (K - 1))) [0..<4]"
    by (simp add: M)
qed

lemma revcompTable_nth:
  assumes "ModelAbstract_new span K = Inr M" "1 \<le> K" "c < 4"
  shows "revcompTable M ! c = comp_NT ! c * 4 ^ (K - 1)"
proof -
  have lt: "K < span" by (rule ModelAbstract_new_Inr(1) [OF assms(1)])
  have "comp_NT ! c * 4 ^ (K - 1) < 4 * 4 ^ (K - 1)"
    using comp_NT_lt [OF assms(3)] by simp
  also have "(4::nat) * 4 ^ (K - 1) = 4 ^ K" using assms(2) by (cases K) simp_all
  also have "(4::nat) ^ K \<le> 4 ^ K * 4" by simp
  also have "\<dots> \<le> 2 ^ Type_getSize span" by (rule pow4_lt_size [OF lt])
  finally have "comp_NT ! c * 4 ^ (K - 1) < 2 ^ Type_getSize span" .
  then have "Type_shl span (comp_NT ! c) (2 * (K - 1)) = comp_NT ! c * 4 ^ (K - 1)"
    by (simp add: Type_shl_def Type_wrap_def pow4_eq)
  moreover have "revcompTable M ! c = Type_shl span (comp_NT ! c) (2 * (K - 1))"
    using assms(3) by (simp add: ModelAbstract_new_Inr(5) [OF assms(1)] del: upt_Suc)
  ultimately show ?thesis by simp
qed

section \<open>Record facts\<close>

lemma minimizer_update_select [simp]:
  "table0 ((k::KmerMinimizer)\<lparr>minimizer := x\<rparr>) = table0 k"
  "table1 (k\<lparr>minimizer := x\<rparr>) = table1 k"
  "choice (k\<lparr>minimizer := x\<rparr>) = choice k"
  "isValid (k\<lparr>minimizer := x\<rparr>) = isValid k"
  "position (k\<lparr>minimizer := x\<rparr>) = position k"
  "changed (k\<lparr>minimizer := x\<rparr>) = changed k"
  "minimizer (k\<lparr>minimizer := x\<rparr>) = x"
  by (cases k, simp)+

lemma minimizer_select_update [simp]:
  "minimizer ((k::KmerMinimizer)\<lparr>table0 := a\<rparr>) = minimizer k"
  "minimizer (k\<lparr>table1 := a\<rparr>) = minimizer k"
  "minimizer (k\<lparr>choice := b\<rparr>) = minimizer k"
  "minimizer (k\<lparr>isValid := c\<rparr>) = minimizer k"
  "minimizer (k\<lparr>position := d\<rparr>) = minimizer k"
  "minimizer (k\<lparr>changed := e\<rparr>) = minimizer k"
  by (cases k, simp)+

section \<open>Frame of computeNewMinimizer\<close>

lemma computeNewMinimizer_loop_frame:
  "table0 (fst (foldl (computeNewMinimizer_step M) st idxs)) = table0 (fst st) \<and>
   table1 (fst (foldl (computeNewMinimizer_step M) st idxs)) = table1 (fst st) \<and>
   choice (fst (foldl (computeNewMinimizer_step M) st idxs)) = choice (fst st) \<and>
   isValid (fst (foldl (computeNewMinimizer_step M) st idxs)) = isValid (fst st) \<and>
   changed (fst (foldl (computeNewMinimizer_step M) st idxs)) = changed (fst st)"
proof (induction idxs arbitrary: st)
  case Nil show ?case by simp
next
  case (Cons idx idxs)
  obtain kmer loop where st: "st = (kmer, loop)" by (cases st)
  have step: "table0 (fst (computeNewMinimizer_step M st idx)) = table0 (fst st) \<and>
    table1 (fst (computeNewMinimizer_step M st idx)) = table1 (fst st) \<and>
    choice (fst (computeNewMinimizer_step M st idx)) = choice (fst st) \<and>
    isValid (fst (computeNewMinimizer_step M st idx)) = isValid (fst st) \<and>
    changed (fst (computeNewMinimizer_step M st idx)) = changed (fst st)"
    by (simp add: st computeNewMinimizer_step_def Let_def split: prod.splits)
  show ?case using Cons.IH [of "computeNewMinimizer_step M st idx"] step by simp
qed

lemma computeNewMinimizer_frame:
  "table0 (computeNewMinimizer M k) = table0 k"
  "table1 (computeNewMinimizer M k) = table1 k"
  "choice (computeNewMinimizer M k) = choice k"
  "isValid (computeNewMinimizer M k) = isValid k"
  "changed (computeNewMinimizer M k) = True"
  using computeNewMinimizer_loop_frame
    [of M "(k\<lparr>minimizer := minimizerDefault M, position := -1, changed := True\<rparr>,
            k\<lparr>minimizer := minimizerDefault M, position := -1, changed := True\<rparr>)"
        "rev [0..<nbMinimizers M]"]
  by (simp_all add: computeNewMinimizer_def Let_def)

section \<open>Neighbors\<close>

lemma shl2_or:
  assumes "K < span" "c < 4"
  shows "Type_add span (Type_shl span x 2) c = Type_shl span x 2 OR c"
proof -
  obtain q where q: "(2::nat) ^ Type_getSize span = 4 * q"
    using four_dvd_size [OF assms(1)] by (auto elim: dvdE)
  have shl: "Type_shl span x 2 = (x mod q) * 2 ^ 2"
    unfolding Type_shl_def Type_wrap_def q by (simp add: mult.commute)
  have "c < 2 ^ 2" using assms(2) by simp
  then have "(x mod q) * 2 ^ 2 OR c = (x mod q) * 2 ^ 2 + c" by (rule or_add_nat)
  moreover have "Type_add span (Type_shl span x 2) c = Type_shl span x 2 + c"
    using shl2_add [OF assms, of x] by (simp add: Type_shl_def Type_wrap_def)
  ultimately show ?thesis by (simp only: shl)
qed

lemma Type_mul4: "Type_mul span x 4 = Type_shl span x 2"
  by (simp add: Type_mul_def Type_shl_def)

lemma upt4: "[0..<4] = [0, 1, 2, 3]"
  by (simp add: upt_rec)

lemma revcomp_numeral:
  "revcomp x (numeral n) =
     comp_NT ! (x mod 4) * 4 ^ pred_numeral n + revcomp (x div 4) (pred_numeral n)"
  using revcomp.simps(2) [of x "pred_numeral n"] by (simp only: numeral_eq_Suc [symmetric])

section \<open>The canonical model\<close>

lemma ModelCanonical_next_table0:
  assumes "ModelAbstract_new span K = Inr M" "c < 4"
  shows "table0 (ModelCanonical_next M c v valid) = (table0 v * 4 + c) mod 4 ^ K"
proof -
  note M = ModelAbstract_new_Inr [OF assms(1)]
  show ?thesis
    using shl2_add_mask [OF M(1) assms(2), of "table0 v"]
    by (simp add: ModelCanonical_next_def updateChoice_def Let_def M(2) M(4))
qed

lemma ModelCanonical_next_table1:
  assumes "ModelAbstract_new span K = Inr M" "1 \<le> K" "c < 4"
    and "table1 v = revcomp (table0 v) K"
  shows "table1 (ModelCanonical_next M c v valid) = revcomp (table0 (ModelCanonical_next M c v valid)) K"
proof -
  note M = ModelAbstract_new_Inr [OF assms(1)]
  obtain k where K: "K = Suc k" using assms(2) by (cases K) simp_all
  let ?r = "revcomp (table0 v) K"
  let ?s = "?r div 4 + comp_NT ! c * 4 ^ k"
  have "?r < 4 ^ K" by (rule revcomp_lt)
  then have "?r div 4 < 4 ^ k" unfolding K by simp
  moreover have "comp_NT ! c * 4 ^ k \<le> 3 * 4 ^ k" using comp_NT_lt [OF assms(3)] by simp
  ultimately have lt: "?s < 4 ^ K" unfolding K power_Suc by linarith
  also have "(4::nat) ^ K \<le> 4 ^ K * 4" by simp
  also have "\<dots> \<le> 2 ^ Type_getSize span" by (rule pow4_lt_size [OF M(1)])
  finally have lt2: "?s < 2 ^ Type_getSize span" .
  have tab: "revcompTable M ! c = comp_NT ! c * 4 ^ k"
    using revcompTable_nth [OF assms(1-3)] by (simp add: K)
  have "table1 (ModelCanonical_next M c v valid)
      = Type_add span (Type_shr (table1 v) 2) (revcompTable M ! c) AND (4 ^ K - 1)"
    by (simp add: ModelCanonical_next_def updateChoice_def Let_def M(2) M(4))
  also have "\<dots> = ?s mod 4 ^ K"
    unfolding and_mask4 using lt2 by (simp add: Type_add_def Type_shr_def Type_wrap_def assms(4) tab)
  also have "\<dots> = ?s" using lt by simp
  also have "\<dots> = revcomp ((table0 v * 4 + c) mod 4 ^ K) K"
    unfolding K by (rule revcomp_slide [OF assms(3), symmetric])
  finally show ?thesis by (simp only: ModelCanonical_next_table0 [OF assms(1) assms(3)])
qed

lemma ModelCanonical_next_choice:
  "choice (ModelCanonical_next M c v valid) =
     (if table0 (ModelCanonical_next M c v valid) < table1 (ModelCanonical_next M c v valid) then 0 else 1)"
  "isValid (ModelCanonical_next M c v valid) = valid"
  by (simp_all add: ModelCanonical_next_def updateChoice_def Let_def)

lemma ModelCanonical_first_fields:
  "fst (ModelCanonical_first M conv seq v) = fst (polynom M conv seq)"
  "table0 (snd (ModelCanonical_first M conv seq v)) = snd (polynom M conv seq)"
  "table1 (snd (ModelCanonical_first M conv seq v)) = revcomp (snd (polynom M conv seq)) (kmerSize M)"
  "choice (snd (ModelCanonical_first M conv seq v)) =
     (if table0 (snd (ModelCanonical_first M conv seq v)) < table1 (snd (ModelCanonical_first M conv seq v))
      then 0 else 1)"
  "isValid (snd (ModelCanonical_first M conv seq v)) = (fst (polynom M conv seq) < 0)"
  by (simp_all add: ModelCanonical_first_def updateChoice_def reverse_def Let_def split: prod.splits)


section \<open>The loop of iterate\<close>

lemma iterate_loop:
  "foldl (iterate_step next_impl K conv seq) (bad0, r0, 0, [(r0, 0)]) [K..<K + m] =
     (fst (run next_impl K conv seq (bad0, r0) m), snd (run next_impl K conv seq (bad0, r0) m), m,
      map (\<lambda>j. (snd (run next_impl K conv seq (bad0, r0) j), j)) [0..<Suc m])"
proof (induction m)
  case 0 show ?case by simp
next
  case (Suc m)
  have "[K..<K + Suc m] = [K..<K + m] @ [K + m]" by simp
  then show ?case
    by (simp only: foldl_append Suc.IH) (simp add: iterate_step_def Let_def)
qed

lemma int32_of_id: "- (2 ^ 31) \<le> x \<Longrightarrow> x < 2 ^ 31 \<Longrightarrow> int32_of x = x"
  unfolding int32_of_def by (simp add: sint_sbintrunc' signed_take_bit_int_eq_self)

lemma iterate_nbKmers:
  assumes "len < 2 ^ 31" "K < 2 ^ 31" "1 \<le> K"
  shows "int32_of (int len - int K + 1) = int len - int K + 1"
  using assms by (intro int32_of_id) auto


lemma iterate_long:
  assumes "len < 2 ^ 31" "K < 2 ^ 31" "1 \<le> K" "K \<le> len"
  shows "iterate first_impl next_impl r0 K conv seq len =
     (True, map (\<lambda>j. (snd (run next_impl K conv seq (first_impl conv seq r0) j), j)) [0..<len - K + 1])"
proof -
  obtain bad0 k0 where f: "first_impl conv seq r0 = (bad0, k0)" by (cases "first_impl conv seq r0")
  have len: "len = K + (len - K)" using assms(4) by simp
  have "foldl (iterate_step next_impl K conv seq) (bad0, k0, 0, [(k0, 0)]) [K..<len] =
     (fst (run next_impl K conv seq (bad0, k0) (len - K)), snd (run next_impl K conv seq (bad0, k0) (len - K)),
      len - K, map (\<lambda>j. (snd (run next_impl K conv seq (bad0, k0) j), j)) [0..<Suc (len - K)])"
    using iterate_loop [of next_impl K conv seq bad0 k0 "len - K"] len by simp
  then show ?thesis
    using assms(4) by (simp add: iterate_def iterate_nbKmers [OF assms(1-3)] f Let_def)
qed


subsection \<open>The countdown of the invalid symbols\<close>

lemma lastbad_less: "lastbad conv seq n < int j \<longleftrightarrow> (\<forall>i. j \<le> i \<and> i < n \<longrightarrow> snd (conv seq i) = 0)"
proof (induction n)
  case 0 show ?case by simp
next
  case (Suc n)
  show ?case
  proof (cases "snd (conv seq n) \<noteq> 0")
    case True
    then show ?thesis by (auto simp: not_less)
  next
    case False
    have "(\<forall>i. j \<le> i \<and> i < Suc n \<longrightarrow> snd (conv seq i) = 0)
       \<longleftrightarrow> (\<forall>i. j \<le> i \<and> i < n \<longrightarrow> snd (conv seq i) = 0)"
      using False by (auto simp: less_Suc_eq)
    then show ?thesis using False Suc.IH by simp
  qed
qed

lemma polynom_loop_fst:
  "fst (foldl (polynom_step span conv seq) (-1, 0) [0..<n]) = lastbad conv seq n"
  by (induction n) (simp_all add: polynom_step_def Let_def)

lemma polynom_fst: "fst (polynom M conv seq) = lastbad conv seq (kmerSize M)"
  by (simp add: polynom_def polynom_loop_fst)

lemma run_counter:
  "fst (run next_impl K conv seq (lastbad conv seq K, r) j) = lastbad conv seq (K + j) - int j"
  by (induction j) (simp_all add: Let_def)

lemma run_valid:
  assumes "\<And>c r v. valid_of (next_impl c r v) = v"
  shows "valid_of (snd (run next_impl K conv seq st0 (Suc j))) = (fst (run next_impl K conv seq st0 (Suc j)) < 0)"
  by (simp add: Let_def assms)

lemma window_valid:
  assumes nxt: "\<And>c r v. valid_of (next_impl c r v) = v"
    and fst0: "valid_of r = (lastbad conv seq K < 0)"
  shows "valid_of (snd (run next_impl K conv seq (lastbad conv seq K, r) j))
     \<longleftrightarrow> (\<forall>i. j \<le> i \<and> i < j + K \<longrightarrow> snd (conv seq i) = 0)"
proof (cases j)
  case 0
  then show ?thesis using fst0 lastbad_less [of conv seq K 0] by simp
next
  case (Suc j')
  have "valid_of (snd (run next_impl K conv seq (lastbad conv seq K, r) j))
     = (fst (run next_impl K conv seq (lastbad conv seq K, r) j) < 0)"
    unfolding Suc by (rule run_valid) (rule nxt)
  also have "\<dots> = (lastbad conv seq (K + j) < int j)" by (simp add: run_counter)
  also have "\<dots> = (\<forall>i. j \<le> i \<and> i < j + K \<longrightarrow> snd (conv seq i) = 0)"
    by (simp add: lastbad_less add.commute)
  finally show ?thesis .
qed

subsection \<open>The value of a window\<close>









section \<open>Decoders and build\<close>

lemma execute_decoder: "execute (getEncoding d) f = f (decoder d)"
  by (cases "getEncoding d") (simp_all add: execute_def decoder_def)

lemma decode_decoder: "decode d i = decoder d (getBuffer d) i"
  by (simp add: decode_def execute_decoder)


lemma ConvertBinary_code: "fst (ConvertBinary buffer idx) < 4"
proof -
  let ?x = "drop_bit ((3 - (idx AND 3)) * 2) (buffer ! drop_bit 2 idx)"
  have "?x AND 3 \<le> (3 :: 8 word)" by (rule word_and_le1)
  then have "unat (?x AND 3) \<le> unat (3 :: 8 word)" by (simp add: word_le_nat_alt)
  then show ?thesis by (simp add: ConvertBinary_def)
qed

subsection \<open>What BuildFunctor leaves in the buffer\<close>





section \<open>The three models under iterate\<close>

lemma ModelDirect_next_fields:
  "kd_isValid (ModelDirect_next M c v valid) = valid"
  "ModelAbstract_new span K = Inr M \<Longrightarrow> c < 4 \<Longrightarrow>
     kd_value (ModelDirect_next M c v valid) = (kd_value v * 4 + c) mod 4 ^ K"
proof -
  show "kd_isValid (ModelDirect_next M c v valid) = valid"
    by (simp add: ModelDirect_next_def Let_def)
next
  assume a: "ModelAbstract_new span K = Inr M" and c: "c < 4"
  note M = ModelAbstract_new_Inr [OF a]
  show "kd_value (ModelDirect_next M c v valid) = (kd_value v * 4 + c) mod 4 ^ K"
    using shl2_add_mask [OF M(1) c, of "kd_value v"]
    by (simp add: ModelDirect_next_def Let_def M(2) M(4))
qed

lemma ModelDirect_first_fields:
  "fst (ModelDirect_first M conv seq v) = lastbad conv seq (kmerSize M)"
  "kd_isValid (snd (ModelDirect_first M conv seq v)) = (lastbad conv seq (kmerSize M) < 0)"
  "kd_value (snd (ModelDirect_first M conv seq v)) = snd (polynom M conv seq)"
  using polynom_fst [of M conv seq]
  by (auto simp: ModelDirect_first_def Let_def split: prod.splits)

lemma ModelMinimizer_new_Inr:
  assumes "ModelMinimizer_new span K m = Inr M"
  shows "m < K" "K < span"
    "ModelAbstract_new span K = Inr (kmerModel M)"
    "ModelAbstract_new span m = Inr (miniModel M)"
    "kmerSize M = K" "getSpan M = span"
    "nbMinimizers M = K - m + 1"
    "mm_mask M = unat (push_bit (2 * m) (1 :: 64 word) - 1)"
    "mmer_lut M = map (mmer_lut_entry (mm_mask M) m) [0..<unat (push_bit (2 * m) (1 :: 64 word))]"
    "mm_shift M = 2 * (K - m)"
    "minimizerDefault M = set1 (kmerMask (miniModel M)) KmerCanonical_new"
proof -
  obtain km where km: "ModelAbstract_new span K = Inr km"
    using assms by (auto simp: ModelMinimizer_new_def split: sum.splits)
  obtain mm where mm: "ModelAbstract_new span m = Inr mm"
    using assms km by (auto simp: ModelMinimizer_new_def split: sum.splits)
  show lt: "m < K" using assms km mm by (auto simp: ModelMinimizer_new_def split: if_splits)
  note KM = ModelAbstract_new_Inr [OF km]
  note MM = ModelAbstract_new_Inr [OF mm]
  show "K < span" by (rule KM(1))
  have M: "M = \<lparr>getSpan = getSpan km, kmerSize = kmerSize km, kmerMask = kmerMask km,
      revcompTable = revcompTable km, kmerModel = km, miniModel = mm,
      nbMinimizers = K - m + 1, mm_mask = unat (push_bit (2 * m) (1 :: 64 word) - 1),
      mmer_lut = map (mmer_lut_entry (unat (push_bit (2 * m) (1 :: 64 word) - 1)) m)
                   [0..<unat (push_bit (2 * m) (1 :: 64 word))],
      mm_shift = 2 * (K - m), minimizerDefault = set1 (kmerMask mm) KmerCanonical_new\<rparr>"
    using assms lt
    by (simp add: ModelMinimizer_new_def km mm Let_def getKmerSize_def KM(3) MM(3)
          ComparatorMinimizer_init_def getKmerMax_def)
  show "ModelAbstract_new span K = Inr (kmerModel M)" by (simp add: M km)
  show "ModelAbstract_new span m = Inr (miniModel M)" by (simp add: M mm)
  show "kmerSize M = K" by (simp add: M KM(3))
  show "getSpan M = span" by (simp add: M KM(2))
  show "nbMinimizers M = K - m + 1" by (simp add: M)
  show "mm_mask M = unat (push_bit (2 * m) (1 :: 64 word) - 1)" by (simp add: M)
  show "mmer_lut M = map (mmer_lut_entry (mm_mask M) m) [0..<unat (push_bit (2 * m) (1 :: 64 word))]"
    by (simp add: M)
  show "mm_shift M = 2 * (K - m)" by (simp add: M)
  show "minimizerDefault M = set1 (kmerMask (miniModel M)) KmerCanonical_new" by (simp add: M)
qed

lemma ModelMinimizer_next_base:
  "isValid (ModelMinimizer_next M c k valid) = valid"
  "table0 (ModelMinimizer_next M c k valid) = table0 (ModelCanonical_next (kmerModel M) c k valid)"
  "table1 (ModelMinimizer_next M c k valid) = table1 (ModelCanonical_next (kmerModel M) c k valid)"
  "choice (ModelMinimizer_next M c k valid) = choice (ModelCanonical_next (kmerModel M) c k valid)"
  by (simp_all add: ModelMinimizer_next_def Let_def computeNewMinimizer_frame)

lemma ModelMinimizer_first_base:
  "fst (ModelMinimizer_first M conv seq k) = fst (ModelCanonical_first (kmerModel M) conv seq k)"
  "isValid (snd (ModelMinimizer_first M conv seq k)) = isValid (snd (ModelCanonical_first (kmerModel M) conv seq k))"
  "table0 (snd (ModelMinimizer_first M conv seq k)) = table0 (snd (ModelCanonical_first (kmerModel M) conv seq k))"
  "table1 (snd (ModelMinimizer_first M conv seq k)) = table1 (snd (ModelCanonical_first (kmerModel M) conv seq k))"
  "choice (snd (ModelMinimizer_first M conv seq k)) = choice (snd (ModelCanonical_first (kmerModel M) conv seq k))"
  by (simp_all add: ModelMinimizer_first_def Let_def computeNewMinimizer_frame split: prod.splits)

lemma nth_calls:
  assumes "j < n"
  shows "map (\<lambda>j. (f j, j)) [0..<n] ! j = (f j, j)"
  using assms by simp

lemma iterate_nth:
  assumes "len < 2 ^ 31" "1 \<le> K" "K \<le> len" "j \<le> len - K"
  shows "snd (iterate first_impl next_impl r0 K conv seq len) ! j
     = (snd (run next_impl K conv seq (first_impl conv seq r0) j), j)"
proof -
  have K: "K < 2 ^ 31" using assms(1,3) by simp
  have j: "j < len - K + 1" using assms(4) by simp
  show ?thesis
    unfolding iterate_long [OF assms(1) K assms(2,3)] snd_conv by (rule nth_calls [OF j])
qed

lemma direct_valid:
  assumes "kmerSize M = K" "data_size d < 2 ^ 31" "1 \<le> K" "K \<le> data_size d" "j \<le> data_size d - K"
  shows "kd_isValid (fst (snd (ModelDirect_iterate M d) ! j))
     \<longleftrightarrow> (\<forall>i. j \<le> i \<and> i < j + K \<longrightarrow> snd (decode d i) = 0)"
proof -
  let ?conv = "decoder d" and ?seq = "getBuffer d"
  obtain r where r: "ModelDirect_first M ?conv ?seq KmerDirect_new = (lastbad ?conv ?seq K, r)"
    using ModelDirect_first_fields(1) [of M ?conv ?seq KmerDirect_new] assms(1)
    by (cases "ModelDirect_first M ?conv ?seq KmerDirect_new") simp
  have r0: "kd_isValid r = (lastbad ?conv ?seq K < 0)"
    using ModelDirect_first_fields(2) [of M ?conv ?seq KmerDirect_new] r assms(1) by simp
  have "kd_isValid (snd (run (ModelDirect_next M) K ?conv ?seq (lastbad ?conv ?seq K, r) j))
     \<longleftrightarrow> (\<forall>i. j \<le> i \<and> i < j + K \<longrightarrow> snd (?conv ?seq i) = 0)"
    by (rule window_valid [where valid_of = kd_isValid]) (simp_all add: ModelDirect_next_fields(1) r0)
  then show ?thesis
    unfolding ModelDirect_iterate_def execute_decoder assms(1)
      iterate_nth [OF assms(2-5)] r decode_decoder by simp
qed

lemma canonical_valid:
  assumes "kmerSize M = K" "data_size d < 2 ^ 31" "1 \<le> K" "K \<le> data_size d" "j \<le> data_size d - K"
  shows "isValid (fst (snd (ModelCanonical_iterate M d) ! j))
     \<longleftrightarrow> (\<forall>i. j \<le> i \<and> i < j + K \<longrightarrow> snd (decode d i) = 0)"
proof -
  let ?conv = "decoder d" and ?seq = "getBuffer d"
  obtain r where r: "ModelCanonical_first M ?conv ?seq KmerCanonical_new = (lastbad ?conv ?seq K, r)"
    using ModelCanonical_first_fields(1) [of M ?conv ?seq KmerCanonical_new] polynom_fst [of M ?conv ?seq] assms(1)
    by (cases "ModelCanonical_first M ?conv ?seq KmerCanonical_new") simp
  have r0: "isValid r = (lastbad ?conv ?seq K < 0)"
    using ModelCanonical_first_fields(5) [of M ?conv ?seq KmerCanonical_new] polynom_fst [of M ?conv ?seq] r assms(1)
    by simp
  have "isValid (snd (run (ModelCanonical_next M) K ?conv ?seq (lastbad ?conv ?seq K, r) j))
     \<longleftrightarrow> (\<forall>i. j \<le> i \<and> i < j + K \<longrightarrow> snd (?conv ?seq i) = 0)"
    by (rule window_valid [where valid_of = isValid]) (simp_all add: ModelCanonical_next_choice(2) r0)
  then show ?thesis
    unfolding ModelCanonical_iterate_def execute_decoder assms(1)
      iterate_nth [OF assms(2-5)] r decode_decoder by simp
qed

lemma minimizer_valid:
  assumes "kmerSize M = K" "kmerSize (kmerModel M) = K"
    "data_size d < 2 ^ 31" "1 \<le> K" "K \<le> data_size d" "j \<le> data_size d - K"
  shows "isValid (fst (snd (ModelMinimizer_iterate M d) ! j))
     \<longleftrightarrow> (\<forall>i. j \<le> i \<and> i < j + K \<longrightarrow> snd (decode d i) = 0)"
proof -
  let ?conv = "decoder d" and ?seq = "getBuffer d"
  have f: "fst (ModelMinimizer_first M ?conv ?seq KmerMinimizer_new) = lastbad ?conv ?seq K"
    by (simp add: ModelMinimizer_first_base(1) ModelCanonical_first_fields(1) polynom_fst assms(2))
  then obtain r where r: "ModelMinimizer_first M ?conv ?seq KmerMinimizer_new = (lastbad ?conv ?seq K, r)"
    by (cases "ModelMinimizer_first M ?conv ?seq KmerMinimizer_new") simp
  have "isValid (snd (ModelMinimizer_first M ?conv ?seq KmerMinimizer_new)) = (lastbad ?conv ?seq K < 0)"
    by (simp add: ModelMinimizer_first_base(2) ModelCanonical_first_fields(5) polynom_fst assms(2))
  then have r0: "isValid r = (lastbad ?conv ?seq K < 0)" using r by simp
  have "isValid (snd (run (ModelMinimizer_next M) K ?conv ?seq (lastbad ?conv ?seq K, r) j))
     \<longleftrightarrow> (\<forall>i. j \<le> i \<and> i < j + K \<longrightarrow> snd (?conv ?seq i) = 0)"
    by (rule window_valid [where valid_of = isValid]) (simp_all add: ModelMinimizer_next_base(1) r0)
  then show ?thesis
    unfolding ModelMinimizer_iterate_def execute_decoder assms(1)
      iterate_nth [OF assms(3-6)] r decode_decoder by simp
qed




section \<open>The bit test of is_allowed\<close>

lemma three_dvd: "3 dvd (4::nat) ^ k - 1"
proof (induction k)
  case 0 show ?case by simp
next
  case (Suc k)
  have "(4::nat) ^ Suc k - 1 = 4 * (4 ^ k - 1) + 3" by (simp add: algebra_simps)
  then show ?case using Suc by (simp only: dvd_add dvd_mult dvd_refl)
qed

lemma fives_Suc: "((4::nat) ^ Suc k - 1) div 3 = 4 * ((4 ^ k - 1) div 3) + 1"
proof -
  obtain q where q: "(4::nat) ^ k - 1 = 3 * q" using three_dvd [of k] by (auto elim: dvdE)
  have "(1::nat) \<le> 4 ^ k" by simp
  with q have a: "(4::nat) ^ k = 3 * q + 1" by linarith
  have "(4::nat) ^ Suc k - 1 = 3 * (4 * q + 1)" unfolding power_Suc a by simp
  then have "((4::nat) ^ Suc k - 1) div 3 = 4 * q + 1" by (simp only: nonzero_mult_div_cancel_left)
  moreover have "((4::nat) ^ k - 1) div 3 = q" unfolding q by simp
  ultimately show ?thesis by (simp only:)
qed

lemma bit_fives: "bit (((4::nat) ^ k - 1) div 3) n \<longleftrightarrow> even n \<and> n < 2 * k"
proof (induction k arbitrary: n)
  case 0 show ?case by simp
next
  case (Suc k)
  define y where "y = ((4::nat) ^ k - 1) div 3"
  have IH: "bit y i \<longleftrightarrow> even i \<and> i < 2 * k" for i unfolding y_def by (rule Suc.IH)
  have eq: "((4::nat) ^ Suc k - 1) div 3 = 4 * y + 1" unfolding y_def by (rule fives_Suc)
  show ?case unfolding eq
  proof (cases n)
    case 0
    then show "bit (4 * y + 1) n \<longleftrightarrow> even n \<and> n < 2 * Suc k" by (simp add: bit_0)
  next
    case (Suc n')
    show "bit (4 * y + 1) n \<longleftrightarrow> even n \<and> n < 2 * Suc k"
    proof (cases n')
      case 0
      then show ?thesis using Suc by (simp add: bit_Suc bit_0)
    next
      case (Suc n'')
      have "bit (4 * y + 1) (Suc (Suc n'')) = bit y n''"
        by (simp add: bit_Suc)
      then show ?thesis using Suc \<open>n = Suc n'\<close> IH [of n''] by simp
    qed
  qed
qed

lemma mask_0101: "(0x5555555555555555 :: 64 word) = word_of_nat (((4::nat) ^ 32 - 1) div 3)"
  by simp

lemma bit_mask_0101: "bit (0x5555555555555555 :: 64 word) n \<longleftrightarrow> even n \<and> n < 64"
  unfolding mask_0101 by (simp only: bit_of_nat_iff bit_fives) auto

lemma digit_zero_iff: "(x div 4 ^ j) mod 4 = 0 \<longleftrightarrow> \<not> bit x (2 * j) \<and> \<not> bit x (2 * j + 1)" for x :: nat
proof -
  let ?y = "x div 4 ^ j"
  have y: "?y = drop_bit (2 * j) x" by (simp add: drop_bit_eq_div pow4_eq)
  have "z mod 4 = 0 \<longleftrightarrow> even z \<and> even (z div 2)" for z :: nat by presburger
  then have "?y mod 4 = 0 \<longleftrightarrow> even ?y \<and> even (?y div 2)" .
  also have "\<dots> \<longleftrightarrow> \<not> bit ?y 0 \<and> \<not> bit ?y (Suc 0)" by (simp add: bit_0 bit_Suc)
  also have "\<dots> \<longleftrightarrow> \<not> bit x (2 * j) \<and> \<not> bit x (2 * j + 1)"
    unfolding y by (simp add: bit_drop_bit_eq)
  finally show ?thesis .
qed

lemma mmask_m1_value:
  assumes "2 \<le> m" "m \<le> 17"
  shows "(scast (push_bit (unat ((word_of_nat m - 2) * 2 :: 32 word)) (1 :: 32 word) - 1) :: 64 word)
     = mask (2 * (m - 2))"
proof -
  have "(word_of_nat m - 2) * 2 = (word_of_nat (2 * (m - 2)) :: 32 word)"
    using assms(1) by (simp add: of_nat_diff)
  moreover have "unat (word_of_nat k :: 32 word) = k" if "k \<le> 30" for k
    using that by (simp add: unat_of_nat take_bit_nat_eq_self)
  from this [of "2 * (m - 2)"] have "unat (word_of_nat (2 * (m - 2)) :: 32 word) = 2 * (m - 2)"
    using assms(2) by linarith
  ultimately have sh: "unat ((word_of_nat m - 2) * 2 :: 32 word) = 2 * (m - 2)" by simp
  have le: "2 * (m - 2) \<le> 30" using assms by simp
  have "push_bit (2 * (m - 2)) (1 :: 32 word) - 1 = mask (2 * (m - 2))"
    by (simp add: mask_eq_exp_minus_1 push_bit_of_1)
  moreover have "(scast (mask (2 * (m - 2)) :: 32 word) :: 64 word) = mask (2 * (m - 2))"
    using le by (intro bit_word_eqI) (auto simp: bit_simps bit_word_scast_iff)
  ultimately show ?thesis by (simp only: sh)
qed


lemma word_zero_iff: "w = 0 \<longleftrightarrow> (\<forall>n. \<not> bit w n)" for w :: "'a::len word"
proof
  assume "w = 0" then show "\<forall>n. \<not> bit w n" by simp
next
  assume "\<forall>n. \<not> bit w n" then show "w = 0" by (intro bit_word_eqI) simp
qed

lemma bit_mmer64:
  "bit (ucast (word_of_nat x :: 32 word) :: 64 word) n \<longleftrightarrow> n < 32 \<and> bit x n"
  by (auto simp: bit_simps)

lemma bit_test:
  fixes X :: "64 word"
  assumes X: "\<And>n. n < 32 \<Longrightarrow> bit X n = bit x n" and le: "sh \<le> 30"
  shows "(drop_bit 1 (NOT (X OR drop_bit 2 X)) AND NOT (X OR drop_bit 2 X))
           AND (0x5555555555555555 AND mask sh) = 0 \<longleftrightarrow>
    (\<forall>n. \<not> (even n \<and> n < sh \<and> \<not> bit x n \<and> \<not> bit x (n + 1) \<and> \<not> bit x (n + 2) \<and> \<not> bit x (n + 3)))"
proof -
  let ?a = "NOT (X OR drop_bit 2 X)"
  let ?t = "(drop_bit 1 ?a AND ?a) AND (0x5555555555555555 AND mask sh)"
  have bt: "bit ?t n \<longleftrightarrow> even n \<and> n < sh \<and> \<not> bit x n \<and> \<not> bit x (n + 1)
      \<and> \<not> bit x (n + 2) \<and> \<not> bit x (n + 3)" for n
  proof (cases "n < sh \<and> even n")
    case False
    have "bit ((0x5555555555555555 :: 64 word) AND mask sh) n
        \<longleftrightarrow> (even n \<and> n < 64) \<and> n < sh"
      by (simp only: bit_and_iff bit_mask_0101 bit_mask_iff) simp
    then have "\<not> bit ((0x5555555555555555 :: 64 word) AND mask sh) n"
      using False by blast
    then have "\<not> bit ?t n" by (simp only: bit_and_iff) blast
    then show ?thesis using False by blast
  next
    case True
    then have n: "n \<le> 28" using le by presburger
    then have small: "n < 32" "n + 1 < 32" "n + 2 < 32" "n + 3 < 32" "n < 64" "Suc n < 64" by simp_all
    have n3: "n + 3 = Suc (Suc (Suc n))" by simp
    have a0: "bit ?a n \<longleftrightarrow> \<not> bit x n \<and> \<not> bit x (n + 2)"
      using small X [of n] X [of "n + 2"]
      by (simp add: bit_not_iff bit_or_iff bit_and_iff bit_drop_bit_eq add.commute)
    have a1: "bit ?a (Suc n) \<longleftrightarrow> \<not> bit x (n + 1) \<and> \<not> bit x (n + 3)"
      using small X [of "n + 1"] X [of "n + 3"] unfolding n3
      by (simp add: bit_not_iff bit_or_iff bit_and_iff bit_drop_bit_eq add.commute)
    have "bit ((0x5555555555555555 :: 64 word) AND mask sh) n"
      using True small by (simp only: bit_and_iff bit_mask_0101 bit_mask_iff) simp
    then have "bit ?t n \<longleftrightarrow> bit ?a (Suc n) \<and> bit ?a n"
      by (simp only: bit_and_iff bit_drop_bit_eq) simp
    then show ?thesis using True a0 a1 by auto
  qed
  have "?t = 0 \<longleftrightarrow> (\<forall>n. \<not> bit ?t n)" by (rule word_zero_iff)
  then show ?thesis by (simp only: bt)
qed

lemma no_AA_bits:
  "(\<forall>n. \<not> (even n \<and> n < 2 * (m - 2) \<and> \<not> bit x n \<and> \<not> bit x (n + 1) \<and> \<not> bit x (n + 2) \<and> \<not> bit x (n + 3)))
    \<longleftrightarrow> \<not> (\<exists>j. j + 2 < m \<and> (x div 4 ^ j) mod 4 = 0 \<and> (x div 4 ^ (j + 1)) mod 4 = 0)"
  for x :: nat
proof -
  have d: "(x div 4 ^ j) mod 4 = 0 \<and> (x div 4 ^ (j + 1)) mod 4 = 0 \<longleftrightarrow>
      \<not> bit x (2 * j) \<and> \<not> bit x (2 * j + 1) \<and> \<not> bit x (2 * j + 2) \<and> \<not> bit x (2 * j + 3)" for j
  proof -
    have e: "2 * (j + 1) = 2 * j + 2" "2 * j + 2 + 1 = 2 * j + 3" by simp_all
    have "(x div 4 ^ (j + 1)) mod 4 = 0 \<longleftrightarrow> \<not> bit x (2 * j + 2) \<and> \<not> bit x (2 * j + 3)"
      using digit_zero_iff [of x "j + 1"] by (simp only: e)
    then show ?thesis using digit_zero_iff [of x j] by (simp only: conj_assoc)
  qed
  show ?thesis
  proof (intro iffI notI allI)
    assume a: "\<forall>n. \<not> (even n \<and> n < 2 * (m - 2) \<and> \<not> bit x n \<and> \<not> bit x (n + 1) \<and> \<not> bit x (n + 2) \<and> \<not> bit x (n + 3))"
    assume "\<exists>j. j + 2 < m \<and> (x div 4 ^ j) mod 4 = 0 \<and> (x div 4 ^ (j + 1)) mod 4 = 0"
    then obtain j where j: "j + 2 < m" "(x div 4 ^ j) mod 4 = 0 \<and> (x div 4 ^ (j + 1)) mod 4 = 0" by auto
    have "even (2 * j) \<and> 2 * j < 2 * (m - 2)" using j(1) by simp
    then show False using a [rule_format, of "2 * j"] j(2) d [of j] by simp
  next
    fix n
    assume b: "\<not> (\<exists>j. j + 2 < m \<and> (x div 4 ^ j) mod 4 = 0 \<and> (x div 4 ^ (j + 1)) mod 4 = 0)"
    assume c: "even n \<and> n < 2 * (m - 2) \<and> \<not> bit x n \<and> \<not> bit x (n + 1) \<and> \<not> bit x (n + 2) \<and> \<not> bit x (n + 3)"
    then obtain j where n: "n = 2 * j" by (auto elim: evenE)
    have "2 * j < 2 * (m - 2)" using c n by simp
    then have "j + 2 < m" by linarith
    moreover have "(x div 4 ^ j) mod 4 = 0 \<and> (x div 4 ^ (j + 1)) mod 4 = 0"
      unfolding d using c n by simp
    ultimately show False using b by auto
  qed
qed

section \<open>The lookup table of the minimizer model\<close>

lemma unat_of_nat64: "k < 2 ^ 64 \<Longrightarrow> unat (word_of_nat k :: 64 word) = k"
  by (simp add: unat_of_nat take_bit_nat_eq_self)

lemma minimizer_sizes:
  assumes "ModelMinimizer_new span K m = Inr M" "m \<le> 15"
  shows "mm_mask M = 4 ^ m - 1" "length (mmer_lut M) = 4 ^ m"
    "kmerMask (miniModel M) = 4 ^ m - 1"
proof -
  note MM = ModelMinimizer_new_Inr [OF assms(1)]
  have lt: "2 * m < 64" using assms(2) by simp
  have "(2::nat) ^ (2 * m) < 2 ^ 64" using lt by (intro power_strict_increasing) simp_all
  then have "unat (word_of_nat (2 ^ (2 * m)) :: 64 word) = 2 ^ (2 * m)"
    by (rule unat_of_nat64)
  moreover have "(push_bit (2 * m) 1 :: 64 word) = word_of_nat (2 ^ (2 * m))"
    by (simp add: push_bit_of_1)
  ultimately have p: "unat (push_bit (2 * m) (1 :: 64 word)) = 4 ^ m"
    by (simp only: pow4_eq)
  have "(1 :: 64 word) \<le> push_bit (2 * m) 1"
    unfolding word_le_nat_alt p by simp
  then have "unat (push_bit (2 * m) (1 :: 64 word) - 1) = unat (push_bit (2 * m) (1 :: 64 word)) - unat (1 :: 64 word)"
    by (rule unat_sub)
  then show "mm_mask M = 4 ^ m - 1" by (simp only: MM(8) p) simp
  have p2: "unat (2 ^ (2 * m) :: 64 word) = 4 ^ m" using p by (simp add: push_bit_of_1)
  show "length (mmer_lut M) = 4 ^ m" by (simp add: MM(9) p2)
  show "kmerMask (miniModel M) = 4 ^ m - 1" by (rule ModelAbstract_new_Inr(4) [OF MM(4)])
qed

lemma mmer_lut_nth:
  assumes "ModelMinimizer_new span K m = Inr M" "m \<le> 15" "x < 4 ^ m"
  shows "mmer_lut M ! x =
     (if is_allowed (word_of_nat (min x (revcomp x m))) (word_of_nat m)
      then min x (revcomp x m) else mm_mask M)"
proof -
  note MM = ModelMinimizer_new_Inr [OF assms(1)]
  have len: "x < length (mmer_lut M)" using assms(3) minimizer_sizes(2) [OF assms(1,2)] by simp
  have "(4::nat) ^ m \<le> 4 ^ 15" using assms(2) by (intro power_increasing) simp_all
  then have "x < 2 ^ 64" using assms(3) by simp
  moreover have "min x (revcomp x m) \<le> x" by simp
  ultimately have gv: "getVal (min x (revcomp x m)) = min x (revcomp x m)"
    by (simp add: getVal_def)
  have e: "mmer_lut_entry (mm_mask M) m x =
     (if is_allowed (word_of_nat (min x (revcomp x m))) (word_of_nat m)
      then min x (revcomp x m) else mm_mask M)"
  proof (cases "revcomp x m < x")
    case True
    then have "min x (revcomp x m) = revcomp x m" by simp
    then show ?thesis using True gv by (simp add: mmer_lut_entry_def Let_def)
  next
    case False
    then have "min x (revcomp x m) = x" by simp
    then show ?thesis using False gv by (simp add: mmer_lut_entry_def Let_def)
  qed
  have "mmer_lut M ! x = mmer_lut_entry (mm_mask M) m x"
    using len unfolding MM(9) by simp
  then show ?thesis by (simp only: e)
qed

section \<open>The minimizer of a window\<close>

lemma kc_value_set1: "kc_value (set1 v k) = v"
  by (simp add: kc_value_def set1_def set2_def updateChoice_def)

lemma mmer_at_le_mask:
  assumes "ModelMinimizer_new span K m = Inr M" "m \<le> 15"
  shows "mmer_at M k i \<le> mm_mask M"
proof -
  note sz = minimizer_sizes [OF assms]
  let ?x = "Type_shr (table0 k) (2 * i) AND mm_mask M"
  have x: "?x < 4 ^ m" unfolding sz(1) and_mask4 by simp
  have "(4::nat) ^ m \<le> 4 ^ 15" using assms(2) by (intro power_increasing) simp_all
  then have "?x < 2 ^ 64" using x by simp
  then have gv: "getVal ?x = ?x" by (simp add: getVal_def)
  have "min ?x (revcomp ?x m) \<le> ?x" by simp
  also have "?x \<le> 4 ^ m - 1" using x by simp
  finally have "min ?x (revcomp ?x m) \<le> mm_mask M" by (simp only: sz(1))
  then have "mmer_lut M ! ?x \<le> mm_mask M"
    unfolding mmer_lut_nth [OF assms x] by simp
  then show ?thesis by (simp only: mmer_at_def gv)
qed

lemma extractShift_fields:
  "kc_value (fst (KmerCanonical_extractShift span l msk sz lut)) = lut ! getVal (table0 l AND msk)"
  "table0 (snd (KmerCanonical_extractShift span l msk sz lut)) = table0 l div 4"
  by (simp_all add: KmerCanonical_extractShift_def KmerCanonical_extract_def Let_def kc_value_set1
        updateChoice_def Type_shr_def)

lemma mmer_at_0: "mmer_at M l 0 = mmer_lut M ! getVal (table0 l AND mm_mask M)"
  by (simp add: mmer_at_def Type_shr_def)

lemma mmer_at_shift:
  assumes "table0 l' = table0 l div 4"
  shows "mmer_at M l' j = mmer_at M l (Suc j)"
proof -
  have "table0 l div 4 div 2 ^ (2 * j) = table0 l div 2 ^ (2 * Suc j)"
    by (simp add: div_mult2_eq)
  then show ?thesis by (simp add: mmer_at_def Type_shr_def assms)
qed

lemma computeNewMinimizer_step_fields:
  "table0 (snd (computeNewMinimizer_step M (kmer, l) idx)) = table0 l div 4"
  "mmer_at M l 0 < kc_value (minimizer kmer) \<Longrightarrow>
     kc_value (minimizer (fst (computeNewMinimizer_step M (kmer, l) idx))) = mmer_at M l 0 \<and>
     position (fst (computeNewMinimizer_step M (kmer, l) idx)) = int idx"
  "\<not> mmer_at M l 0 < kc_value (minimizer kmer) \<Longrightarrow>
     fst (computeNewMinimizer_step M (kmer, l) idx) = kmer"
proof -
  obtain mmer l' where e: "KmerCanonical_extractShift (getSpan M) l (mm_mask M) (mm_shift M) (mmer_lut M) = (mmer, l')"
    by (cases "KmerCanonical_extractShift (getSpan M) l (mm_mask M) (mm_shift M) (mmer_lut M)")
  have v: "kc_value mmer = mmer_at M l 0" and t: "table0 l' = table0 l div 4"
    using extractShift_fields [of "getSpan M" l "mm_mask M" "mm_shift M" "mmer_lut M"]
    by (simp_all add: e mmer_at_0)
  show "table0 (snd (computeNewMinimizer_step M (kmer, l) idx)) = table0 l div 4"
    by (simp add: computeNewMinimizer_step_def e t)
  show "mmer_at M l 0 < kc_value (minimizer kmer) \<Longrightarrow>
     kc_value (minimizer (fst (computeNewMinimizer_step M (kmer, l) idx))) = mmer_at M l 0 \<and>
     position (fst (computeNewMinimizer_step M (kmer, l) idx)) = int idx"
    by (simp add: computeNewMinimizer_step_def e v ComparatorMinimizer_lt_def)
  show "\<not> mmer_at M l 0 < kc_value (minimizer kmer) \<Longrightarrow>
     fst (computeNewMinimizer_step M (kmer, l) idx) = kmer"
    by (simp add: computeNewMinimizer_step_def e v ComparatorMinimizer_lt_def)
qed

lemma computeNewMinimizer_loop:
  fixes kmer l :: KmerMinimizer
  defines "v \<equiv> kc_value (minimizer kmer)"
  shows "\<exists>v' p'. kc_value (minimizer (fst (foldl (computeNewMinimizer_step M) (kmer, l) (rev [0..<n])))) = v' \<and>
      position (fst (foldl (computeNewMinimizer_step M) (kmer, l) (rev [0..<n]))) = p' \<and>
      v' \<le> v \<and> (\<forall>j<n. v' \<le> mmer_at M l j) \<and>
      ((v' = v \<and> p' = position kmer) \<or>
       (v' < v \<and> (\<exists>j<n. mmer_at M l j = v' \<and> p' = int (n - 1 - j) \<and> (\<forall>j'<j. v' < mmer_at M l j'))))"
  unfolding v_def
proof (induction n arbitrary: kmer l)
  case 0
  show ?case by simp
next
  case (Suc n)
  let ?st = "computeNewMinimizer_step M (kmer, l) n"
  obtain kmer1 l1 where st: "?st = (kmer1, l1)" by (cases ?st)
  have l1: "table0 l1 = table0 l div 4"
    using computeNewMinimizer_step_fields(1) [of M kmer l n] by (simp add: st)
  have sh: "mmer_at M l1 j = mmer_at M l (Suc j)" for j by (rule mmer_at_shift [OF l1])
  let ?v = "kc_value (minimizer kmer)" and ?v1 = "kc_value (minimizer kmer1)"
  let ?E0 = "mmer_at M l 0"
  have k1: "(?E0 < ?v \<and> ?v1 = ?E0 \<and> position kmer1 = int n) \<or> (\<not> ?E0 < ?v \<and> kmer1 = kmer)"
    using computeNewMinimizer_step_fields(2,3) [of M l kmer n] by (auto simp: st)
  have fold: "foldl (computeNewMinimizer_step M) (kmer, l) (rev [0..<Suc n])
      = foldl (computeNewMinimizer_step M) (kmer1, l1) (rev [0..<n])"
    by (simp add: st)
  obtain v' p' where IH:
    "kc_value (minimizer (fst (foldl (computeNewMinimizer_step M) (kmer1, l1) (rev [0..<n])))) = v'"
    "position (fst (foldl (computeNewMinimizer_step M) (kmer1, l1) (rev [0..<n]))) = p'"
    "v' \<le> ?v1" "\<forall>j<n. v' \<le> mmer_at M l1 j"
    "(v' = ?v1 \<and> p' = position kmer1) \<or>
       (v' < ?v1 \<and> (\<exists>j<n. mmer_at M l1 j = v' \<and> p' = int (n - 1 - j) \<and> (\<forall>j'<j. v' < mmer_at M l1 j')))"
    using Suc.IH [of kmer1 l1] by blast
  have v1: "?v1 \<le> ?v" "?v1 \<le> ?E0" using k1 by auto
  have a: "v' \<le> ?v" using IH(3) v1(1) by simp
  have b: "\<forall>j<Suc n. v' \<le> mmer_at M l j"
  proof (intro allI impI)
    fix j assume j: "j < Suc n"
    show "v' \<le> mmer_at M l j"
    proof (cases j)
      case 0 then show ?thesis using IH(3) v1(2) by simp
    next
      case (Suc j0)
      then have "j0 < n" using j by simp
      then have "v' \<le> mmer_at M l1 j0" using IH(4) by blast
      then show ?thesis unfolding Suc sh .
    qed
  qed
  have c: "(v' = ?v \<and> p' = position kmer) \<or>
       (v' < ?v \<and> (\<exists>j<Suc n. mmer_at M l j = v' \<and> p' = int (Suc n - 1 - j) \<and> (\<forall>j'<j. v' < mmer_at M l j')))"
  proof -
    from IH(5) show ?thesis
    proof
      assume eq: "v' = ?v1 \<and> p' = position kmer1"
      from k1 show ?thesis
      proof
        assume "?E0 < ?v \<and> ?v1 = ?E0 \<and> position kmer1 = int n"
        then have "v' < ?v \<and> mmer_at M l 0 = v' \<and> p' = int (Suc n - 1 - 0) \<and> (\<forall>j'<0. v' < mmer_at M l j')"
          using eq by simp
        then show ?thesis by (intro disjI2) (auto intro: exI [of _ 0])
      next
        assume "\<not> ?E0 < ?v \<and> kmer1 = kmer"
        then show ?thesis using eq by simp
      qed
    next
      assume "v' < ?v1 \<and> (\<exists>j<n. mmer_at M l1 j = v' \<and> p' = int (n - 1 - j) \<and> (\<forall>j'<j. v' < mmer_at M l1 j'))"
      then obtain j where j: "v' < ?v1" "j < n" "mmer_at M l1 j = v'" "p' = int (n - 1 - j)"
        "\<forall>j'<j. v' < mmer_at M l1 j'" by blast
      have lt: "v' < ?v" using j(1) v1(1) by simp
      have e0: "v' < ?E0" using j(1) v1(2) by simp
      have "\<forall>j'<Suc j. v' < mmer_at M l j'"
      proof (intro allI impI)
        fix j' assume "j' < Suc j"
        then show "v' < mmer_at M l j'" using e0 j(5) sh by (cases j') auto
      qed
      moreover have "mmer_at M l (Suc j) = v'" using j(3) sh by simp
      moreover have "p' = int (Suc n - 1 - Suc j)" using j(4) by simp
      moreover have "Suc j < Suc n" using j(2) by simp
      ultimately show ?thesis using lt by blast
    qed
  qed
  show ?case unfolding fold using IH(1,2) a b c by blast
qed


lemma mod_div_mod4:
  assumes "a + m \<le> K"
  shows "(y mod 4 ^ K) div 4 ^ a mod 4 ^ m = y div 4 ^ a mod (4::nat) ^ m"
proof -
  have K: "(4::nat) ^ K = 4 ^ a * 4 ^ (K - a)" using assms by (simp flip: power_add)
  have "(y mod 4 ^ K) div 4 ^ a = (y div 4 ^ a) mod 4 ^ (K - a)"
    unfolding K by (simp add: mod_mult2_eq)
  moreover have "(4::nat) ^ m dvd 4 ^ (K - a)" using assms by (intro le_imp_power_dvd) simp
  ultimately show ?thesis by (simp add: mod_mod_cancel)
qed

lemma minimizer_next_fields:
  "minimizer (ModelCanonical_next Mc c k valid) = minimizer (k :: KmerMinimizer)"
  "position (ModelCanonical_next Mc c k valid) = position k"
  by (simp_all add: ModelCanonical_next_def updateChoice_def Let_def)

lemma mmer_at_cong: "table0 k' = table0 k \<Longrightarrow> mmer_at M k' i = mmer_at M k i"
  by (simp add: mmer_at_def)

lemma mmer_at_next:
  assumes "ModelMinimizer_new span K m = Inr M" "m \<le> 15" "c < 4" "Suc i < nbMinimizers M"
  shows "mmer_at M (ModelMinimizer_next M c k valid) (Suc i) = mmer_at M k i"
proof -
  note MM = ModelMinimizer_new_Inr [OF assms(1)]
  have t: "table0 (ModelMinimizer_next M c k valid) = (table0 k * 4 + c) mod 4 ^ K"
    by (simp add: ModelMinimizer_next_base(2) ModelCanonical_next_table0 [OF MM(3) assms(3)])
  have le: "Suc i + m \<le> K" using assms(4) MM(1) by (simp add: MM(7))
  have "(table0 k * 4 + c) mod 4 ^ K div 4 ^ Suc i mod 4 ^ m = (table0 k * 4 + c) div 4 ^ Suc i mod 4 ^ m"
    by (rule mod_div_mod4 [OF le])
  also have "(table0 k * 4 + c) div 4 ^ Suc i = table0 k div 4 ^ i"
    using assms(3) by (simp add: div_mult2_eq)
  finally have "(table0 k * 4 + c) mod 4 ^ K div 4 ^ Suc i mod 4 ^ m = table0 k div 4 ^ i mod 4 ^ m" .
  then have e: "Type_shr (table0 (ModelMinimizer_next M c k valid)) (2 * Suc i) mod 4 ^ m
      = Type_shr (table0 k) (2 * i) mod 4 ^ m"
    unfolding t Type_shr_def by (simp only: pow4_eq [symmetric])
  show ?thesis
    unfolding mmer_at_def minimizer_sizes(1) [OF assms(1,2)] and_mask4 by (simp only: e)
qed

lemma computeNewMinimizer_result:
  assumes "ModelMinimizer_new span K m = Inr M" "m \<le> 15"
  shows "minimizer_inv M (computeNewMinimizer M k) \<and>
    (\<forall>j<nbMinimizers M. mmer_at M k j = kc_value (minimizer (computeNewMinimizer M k)) \<and>
        kc_value (minimizer (computeNewMinimizer M k)) < mm_mask M
      \<longrightarrow> int (nbMinimizers M - 1 - j) \<le> position (computeNewMinimizer M k))"
proof -
  note MM = ModelMinimizer_new_Inr [OF assms(1)]
  note sz = minimizer_sizes [OF assms]
  let ?nb = "nbMinimizers M"
  let ?k0 = "k\<lparr>minimizer := minimizerDefault M, position := -1, changed := True\<rparr>"
  let ?R = "computeNewMinimizer M k"
  have R: "?R = fst (foldl (computeNewMinimizer_step M) (?k0, ?k0) (rev [0..<?nb]))"
    by (simp add: computeNewMinimizer_def Let_def)
  have v0: "kc_value (minimizer ?k0) = mm_mask M"
    by (simp add: MM(11) kc_value_set1 sz(1) sz(3))
  have at: "mmer_at M ?k0 j = mmer_at M k j" for j by (rule mmer_at_cong) simp
  have atR: "mmer_at M ?R j = mmer_at M k j" for j
    by (rule mmer_at_cong) (rule computeNewMinimizer_frame(1))
  obtain v' p' where L: "kc_value (minimizer ?R) = v'" "position ?R = p'"
    "v' \<le> mm_mask M" "\<forall>j<?nb. v' \<le> mmer_at M k j"
    "(v' = mm_mask M \<and> p' = -1) \<or>
       (v' < mm_mask M \<and> (\<exists>j<?nb. mmer_at M k j = v' \<and> p' = int (?nb - 1 - j) \<and> (\<forall>j'<j. v' < mmer_at M k j')))"
    using computeNewMinimizer_loop [of M ?k0 ?k0 ?nb] unfolding R [symmetric] v0 at by auto
  have inv: "minimizer_inv M ?R"
  proof -
    from L(5) have "(position ?R = -1 \<and> kc_value (minimizer ?R) = mm_mask M) \<or>
      (0 \<le> position ?R \<and> position ?R < int ?nb \<and> kc_value (minimizer ?R) < mm_mask M \<and>
       mmer_at M ?R (?nb - 1 - nat (position ?R)) = kc_value (minimizer ?R))"
    proof
      assume "v' = mm_mask M \<and> p' = -1"
      then show ?thesis using L(1,2) by simp
    next
      assume "v' < mm_mask M \<and> (\<exists>j<?nb. mmer_at M k j = v' \<and> p' = int (?nb - 1 - j) \<and> (\<forall>j'<j. v' < mmer_at M k j'))"
      then obtain j where j: "v' < mm_mask M" "j < ?nb" "mmer_at M k j = v'" "p' = int (?nb - 1 - j)" by blast
      have "?nb - 1 - nat (position ?R) = j" using j(2,4) L(2) by simp
      then have "mmer_at M ?R (?nb - 1 - nat (position ?R)) = v'" using j(3) atR by simp
      moreover have "0 \<le> position ?R \<and> position ?R < int ?nb" using j(2,4) L(2) by simp
      ultimately show ?thesis using j(1) L(1) by simp
    qed
    then show ?thesis unfolding minimizer_inv_def atR using L(1,4) by simp
  qed
  have tie: "\<forall>j<?nb. mmer_at M k j = kc_value (minimizer ?R) \<and> kc_value (minimizer ?R) < mm_mask M
      \<longrightarrow> int (?nb - 1 - j) \<le> position ?R"
  proof (intro allI impI)
    fix j assume j: "j < ?nb" and e: "mmer_at M k j = kc_value (minimizer ?R) \<and> kc_value (minimizer ?R) < mm_mask M"
    from L(5) e L(1) obtain j0 where j0: "j0 < ?nb" "p' = int (?nb - 1 - j0)" "\<forall>j'<j0. v' < mmer_at M k j'"
      by auto
    have "\<not> j < j0" using j0(3) e L(1) by auto
    then show "int (?nb - 1 - j) \<le> position ?R" using j0(2) L(2) by simp
  qed
  show ?thesis using inv tie by blast
qed

lemma ModelMinimizer_next_cases:
  fixes k :: KmerMinimizer and M c valid
  defines "R \<equiv> ModelMinimizer_next M c k valid"
  shows "(mmer_at M R 0 < kc_value (minimizer k) \<and> kc_value (minimizer R) = mmer_at M R 0 \<and>
            position R = int (nbMinimizers M) - 1) \<or>
         (\<not> mmer_at M R 0 < kc_value (minimizer k) \<and> position k - 1 < 0 \<and>
            (\<exists>k2. R = computeNewMinimizer M k2)) \<or>
         (\<not> mmer_at M R 0 < kc_value (minimizer k) \<and> \<not> position k - 1 < 0 \<and>
            kc_value (minimizer R) = kc_value (minimizer k) \<and> position R = position k - 1)"
proof -
  let ?k1 = "ModelCanonical_next (kmerModel M) c k valid"
  have new: "mmer_at M R 0 = mmer_lut M ! getVal (table0 ?k1 AND mm_mask M)"
    unfolding R_def by (simp add: mmer_at_0 ModelMinimizer_next_base(2))
  have ex: "kc_value (KmerCanonical_extract (?k1\<lparr>isValid := valid\<rparr>) (mm_mask M) (mm_shift M) (mmer_lut M))
      = mmer_lut M ! getVal (table0 ?k1 AND mm_mask M)"
    by (simp add: KmerCanonical_extract_def kc_value_set1)
  show ?thesis
    unfolding new unfolding R_def ModelMinimizer_next_def Let_def ComparatorMinimizer_lt_def ex
    by (auto simp: minimizer_next_fields kc_value_set1 KmerCanonical_extract_def)
qed

lemma ModelMinimizer_next_inv:
  assumes M: "ModelMinimizer_new span K m = Inr M" and m: "m \<le> 15" and c: "c < 4"
    and inv: "minimizer_inv M k"
  shows "minimizer_inv M (ModelMinimizer_next M c k valid)"
proof -
  note MM = ModelMinimizer_new_Inr [OF M]
  let ?nb = "nbMinimizers M"
  let ?R = "ModelMinimizer_next M c k valid"
  let ?v = "kc_value (minimizer k)"
  have nb: "2 \<le> ?nb" using MM(1,7) by simp
  have sh: "mmer_at M ?R (Suc i) = mmer_at M k i" if "Suc i < ?nb" for i
    using mmer_at_next [OF M m c that] .
  have lb: "?v \<le> mmer_at M k j" if "j < ?nb" for j
    using inv that by (simp add: minimizer_inv_def)
  have vm: "?v \<le> mm_mask M" using inv by (auto simp: minimizer_inv_def)
  have tail: "?v \<le> mmer_at M ?R j" if j: "j < ?nb" and j0: "0 < j" for j
  proof -
    obtain i where i: "j = Suc i" using j0 by (cases j) simp_all
    then show ?thesis using sh [of i] lb [of i] j by simp
  qed
  from ModelMinimizer_next_cases [of M c k valid]
  consider
    (adopt) "mmer_at M ?R 0 < ?v" "kc_value (minimizer ?R) = mmer_at M ?R 0" "position ?R = int ?nb - 1"
  | (recompute) k2 where "?R = computeNewMinimizer M k2"
  | (keep) "\<not> mmer_at M ?R 0 < ?v" "\<not> position k - 1 < 0" "kc_value (minimizer ?R) = ?v"
      "position ?R = position k - 1"
    by blast
  then show ?thesis
  proof cases
    case adopt
    have "kc_value (minimizer ?R) \<le> mmer_at M ?R j" if "j < ?nb" for j
    proof (cases "j = 0")
      case True then show ?thesis using adopt(2) by simp
    next
      case False then show ?thesis using tail [of j] that adopt(1,2) by simp
    qed
    moreover have "?nb - 1 - nat (position ?R) = 0" using adopt(3) by simp
    moreover have "0 \<le> position ?R" "position ?R < int ?nb" using adopt(3) nb by simp_all
    moreover have "kc_value (minimizer ?R) < mm_mask M" using adopt(1,2) vm by simp
    ultimately show ?thesis unfolding minimizer_inv_def using adopt(2) by simp
  next
    case recompute
    show ?thesis unfolding recompute using computeNewMinimizer_result [OF M m, of k2] by blast
  next
    case keep
    have p: "1 \<le> position k" using keep(2) by simp
    then have B: "position k < int ?nb" "?v < mm_mask M"
      "mmer_at M k (?nb - 1 - nat (position k)) = ?v"
      using inv by (auto simp: minimizer_inv_def)
    have "kc_value (minimizer ?R) \<le> mmer_at M ?R j" if "j < ?nb" for j
    proof (cases "j = 0")
      case True then show ?thesis using keep(1,3) by simp
    next
      case False then show ?thesis using tail [of j] that keep(3) by simp
    qed
    moreover have "?nb - 1 - nat (position ?R) = Suc (?nb - 1 - nat (position k))"
      using keep(4) p B(1) by (simp add: nat_diff_distrib)
    moreover have "Suc (?nb - 1 - nat (position k)) < ?nb" using p B(1) by linarith
    moreover have "0 \<le> position ?R" "position ?R < int ?nb" using keep(4) p B(1) by simp_all
    ultimately show ?thesis unfolding minimizer_inv_def using keep(3) B(2,3) sh by simp
  qed
qed

lemma minimizer_produced_inv:
  assumes "ModelMinimizer_new span K m = Inr M" "m \<le> 15" "minimizer_produced M k"
  shows "minimizer_inv M k"
  using assms(3)
proof (induction rule: minimizer_produced.induct)
  case (m_first conv seq k0)
  show ?case using computeNewMinimizer_result [OF assms(1,2)]
    by (simp add: ModelMinimizer_first_def split: prod.splits)
next
  case (m_next k c valid)
  then show ?case using ModelMinimizer_next_inv [OF assms(1,2)] by simp
qed

lemma minimizer_inv_Min:
  assumes "ModelMinimizer_new span K m = Inr M" "m \<le> 15" "minimizer_inv M k"
  shows "kc_value (minimizer k) = Min (mmer_at M k ` {..<nbMinimizers M})"
proof -
  note MM = ModelMinimizer_new_Inr [OF assms(1)]
  let ?nb = "nbMinimizers M"
  let ?S = "mmer_at M k ` {..<?nb}"
  have nb: "0 < ?nb" using MM(7) by simp
  have fin: "finite ?S" "?S \<noteq> {}" using nb by auto
  have lb: "\<forall>y\<in>?S. kc_value (minimizer k) \<le> y" using assms(3) by (auto simp: minimizer_inv_def)
  have mem: "kc_value (minimizer k) \<in> ?S"
  proof (cases "kc_value (minimizer k) < mm_mask M")
    case True
    then have "mmer_at M k (?nb - 1 - nat (position k)) = kc_value (minimizer k)"
      using assms(3) by (auto simp: minimizer_inv_def)
    moreover have "?nb - 1 - nat (position k) < ?nb" using nb by simp
    ultimately show ?thesis by (metis imageI lessThan_iff)
  next
    case False
    then have v: "kc_value (minimizer k) = mm_mask M" using assms(3) by (auto simp: minimizer_inv_def)
    have "mm_mask M \<le> mmer_at M k 0" using assms(3) nb v by (auto simp: minimizer_inv_def)
    then have "mmer_at M k 0 = mm_mask M" using mmer_at_le_mask [OF assms(1,2), of k 0] by simp
    then show ?thesis using v nb by (metis imageI lessThan_iff)
  qed
  show ?thesis using fin lb mem by (metis Min_eqI)
qed

lemma mmer_at_eval:
  assumes "ModelMinimizer_new span K m = Inr M" "m \<le> 15"
  shows "mmer_at M k i =
    (if is_allowed (word_of_nat (min (table0 k div 4 ^ i mod 4 ^ m) (revcomp (table0 k div 4 ^ i mod 4 ^ m) m)))
          (word_of_nat m)
     then min (table0 k div 4 ^ i mod 4 ^ m) (revcomp (table0 k div 4 ^ i mod 4 ^ m) m)
     else 4 ^ m - 1)"
proof -
  note sz = minimizer_sizes [OF assms]
  let ?x = "Type_shr (table0 k) (2 * i) AND mm_mask M"
  have e: "?x = table0 k div 4 ^ i mod 4 ^ m"
    unfolding sz(1) and_mask4 by (simp add: Type_shr_def pow4_eq)
  have x: "?x < 4 ^ m" unfolding e by simp
  have "(4::nat) ^ m \<le> 4 ^ 15" using assms(2) by (intro power_increasing) simp_all
  then have "?x < 2 ^ 64" using x by simp
  then have gv: "getVal ?x = ?x" by (simp add: getVal_def)
  have "mmer_lut M ! ?x =
     (if is_allowed (word_of_nat (min ?x (revcomp ?x m))) (word_of_nat m)
      then min ?x (revcomp ?x m) else mm_mask M)"
    by (rule mmer_lut_nth [OF assms x])
  then show ?thesis unfolding mmer_at_def gv by (simp only: e) (simp only: sz(1))
qed

lemma is_allowed_len2: "is_allowed x 2"
  by (simp add: is_allowed_def)

section \<open>SuperKmer: save and load\<close>

lemma payload_step:
  assumes "p < 4 ^ n" "2 * n + 2 \<le> W"
  shows "((p * 2 ^ 2) mod 2 ^ W) OR (g AND (3::nat)) = p * 4 + g mod 4"
proof -
  have "p * 4 < 4 ^ Suc n" using assms(1) by simp
  also have "(4::nat) ^ Suc n = 2 ^ (2 * n + 2)" by (simp add: pow4_eq)
  also have "\<dots> \<le> 2 ^ W" using assms(2) by (intro power_increasing) simp_all
  finally have "(p * 2 ^ 2) mod 2 ^ W = p * 2 ^ 2" by simp
  moreover have "g AND (3::nat) = g mod 4" using and_mask4 [of g 1] by simp
  moreover have "(p * 2 ^ 2) OR (g mod 4) = p * 2 ^ 2 + g mod 4"
    by (rule or_add_nat) simp
  ultimately show ?thesis by simp
qed

lemma payload_shl:
  assumes "p < 4 ^ n" "2 * Suc n \<le> Type_getSize span"
  shows "Type_shl span p 2 OR (g AND 3) = p * 4 + g mod 4"
  unfolding Type_shl_def Type_wrap_def using assms(2) by (intro payload_step [OF assms(1)]) simp

lemma payload:
  assumes "2 * n \<le> Type_getSize span"
  shows "foldl (\<lambda>p ii. Type_shl span p 2 OR (g ii AND 3)) 0 [1..<Suc n] < 4 ^ n \<and>
    (\<forall>j<n. foldl (\<lambda>p ii. Type_shl span p 2 OR (g ii AND 3)) 0 [1..<Suc n] div 4 ^ j mod 4
              = g (n - j) mod 4)"
  using assms
proof (induction n)
  case 0
  show ?case by simp
next
  case (Suc n)
  let ?p = "foldl (\<lambda>p ii. Type_shl span p 2 OR (g ii AND 3)) 0 [1..<Suc n]"
  let ?q = "foldl (\<lambda>p ii. Type_shl span p 2 OR (g ii AND 3)) 0 [1..<Suc (Suc n)]"
  have IH: "?p < 4 ^ n" "\<forall>j<n. ?p div 4 ^ j mod 4 = g (n - j) mod 4"
    using Suc by simp_all
  have "?q = Type_shl span ?p 2 OR (g (Suc n) AND 3)" by simp
  also have "\<dots> = ?p * 4 + g (Suc n) mod 4"
    using IH(1) Suc.prems by (rule payload_shl)
  finally have q: "?q = ?p * 4 + g (Suc n) mod 4" .
  have lt: "?q < 4 ^ Suc n"
  proof -
    have "?p * 4 + g (Suc n) mod 4 < (?p + 1) * 4" by simp
    also have "\<dots> \<le> 4 ^ n * 4" using IH(1) by (intro mult_right_mono) simp_all
    finally show ?thesis unfolding q by simp
  qed
  have dig: "?q div 4 ^ j mod 4 = g (Suc n - j) mod 4" if "j < Suc n" for j
  proof (cases j)
    case 0
    then show ?thesis unfolding q by simp
  next
    case (Suc j')
    have "?q div 4 ^ Suc j' = ?q div 4 div 4 ^ j'" by (simp add: div_mult2_eq)
    also have "?q div 4 = ?p" unfolding q by simp
    finally show ?thesis using IH(2) that Suc by simp
  qed
  show ?case using lt dig by blast
qed

lemma load_loop_before:
  assumes "j < ii"
  shows "load_loop span kmerMsk shift superk nbK ii rem temp rev_temp ks ! j = ks ! j \<and>
         length (load_loop span kmerMsk shift superk nbK ii rem temp rev_temp ks) = length ks"
  using assms
proof (induction "nbK - ii" arbitrary: ii rem temp rev_temp ks)
  case 0
  then show ?case by (subst (1 2) load_loop.simps) simp
next
  case (Suc n)
  have n: "n = nbK - Suc ii" using Suc(2) by simp
  have j: "j < Suc ii" using Suc(3) by simp
  note IH = Suc(1) [OF n j]
  show ?case
    using Suc(3) by (subst (1 2) load_loop.simps) (simp add: Let_def IH)
qed

lemma load_loop_nth:
  assumes len: "nbK \<le> length ks" and rem: "rem + ii = nbK" and ii: "ii < nbK"
    and stepf: "\<And>j. ii \<le> j \<Longrightarrow> Suc j < nbK \<Longrightarrow>
       (Type_shl span (f j) 2 OR (Type_shr superk (2 * (nbK - j - 2)) AND 3)) AND kmerMsk = f (Suc j)"
    and stepr: "\<And>j. ii \<le> j \<Longrightarrow> Suc j < nbK \<Longrightarrow>
       (Type_shr (r j) 2 OR Type_shl span (comp_NT ! getVal (Type_shr superk (2 * (nbK - j - 2)) AND 3)) shift)
          AND kmerMsk = r (Suc j)"
  shows "length (load_loop span kmerMsk shift superk nbK ii rem (f ii) (r ii) ks) = length ks \<and>
     (\<forall>i<length ks. load_loop span kmerMsk shift superk nbK ii rem (f ii) (r ii) ks ! i
        = (if ii \<le> i \<and> i < nbK then set2 (r i) (f i) (ks ! i) else ks ! i))"
  using assms
proof (induction "nbK - ii" arbitrary: ii rem ks)
  case 0
  then show ?case by simp
next
  case (Suc n)
  let ?ks1 = "ks[ii := set2 (r ii) (f ii) (ks ! ii)]"
  show ?case
  proof (cases "rem < 2")
    case True
    then have last: "Suc ii = nbK" using Suc.prems(2,3) by simp
    have e: "load_loop span kmerMsk shift superk nbK ii rem (f ii) (r ii) ks = ?ks1"
      using True Suc.prems(3) by (subst load_loop.simps) (simp add: Let_def)
    show ?thesis unfolding e using last Suc.prems(1) by (auto simp: nth_list_update)
  next
    case False
    then have nxt: "Suc ii < nbK" and r2: "rem - 2 = nbK - ii - 2" using Suc.prems(2) by simp_all
    have e: "load_loop span kmerMsk shift superk nbK ii rem (f ii) (r ii) ks
        = load_loop span kmerMsk shift superk nbK (Suc ii) (rem - 1) (f (Suc ii)) (r (Suc ii)) ?ks1"
    proof -
      have d: "nbK - ii - 2 = nbK - Suc (Suc ii)" by simp
      note sf = Suc.prems(4) [OF le_refl nxt, unfolded d]
      note sr = Suc.prems(5) [OF le_refl nxt, unfolded d]
      show ?thesis
        using False Suc.prems(3)
        by (subst load_loop.simps) (simp add: Let_def r2 sf sr)
    qed
    have n: "n = nbK - Suc ii" using Suc(2) by simp
    have IH: "length (load_loop span kmerMsk shift superk nbK (Suc ii) (rem - 1) (f (Suc ii)) (r (Suc ii)) ?ks1)
          = length ?ks1 \<and>
       (\<forall>i<length ?ks1. load_loop span kmerMsk shift superk nbK (Suc ii) (rem - 1) (f (Suc ii)) (r (Suc ii)) ?ks1 ! i
          = (if Suc ii \<le> i \<and> i < nbK then set2 (r i) (f i) (?ks1 ! i) else ?ks1 ! i))"
    proof (rule Suc(1) [OF n])
      show "nbK \<le> length ?ks1" using Suc.prems(1) by simp
      show "rem - 1 + Suc ii = nbK" using False Suc.prems(2) by simp
      show "Suc ii < nbK" by (rule nxt)
      show "(Type_shl span (f j) 2 OR (Type_shr superk (2 * (nbK - j - 2)) AND 3)) AND kmerMsk = f (Suc j)"
        if "Suc ii \<le> j" "Suc j < nbK" for j using Suc.prems(4) [of j] that by simp
      show "(Type_shr (r j) 2 OR Type_shl span (comp_NT ! getVal (Type_shr superk (2 * (nbK - j - 2)) AND 3)) shift)
          AND kmerMsk = r (Suc j)"
        if "Suc ii \<le> j" "Suc j < nbK" for j using Suc.prems(5) [of j] that by simp
    qed
    show ?thesis unfolding e using IH Suc.prems(1,3) by (auto simp: nth_list_update)
  qed
qed

lemma load_step_fwd:
  assumes "K < span" "c < 4"
  shows "(Type_shl span f 2 OR c) AND (4 ^ K - 1) = (f * 4 + c) mod 4 ^ K"
  using shl2_add_mask [OF assms, of f] unfolding shl2_or [OF assms] .

lemma load_step_rev:
  assumes "1 \<le> K" "K < span" "c < 4"
  shows "(Type_shr (revcomp f K) 2 OR Type_shl span (comp_NT ! getVal c) (2 * (K - 1))) AND (4 ^ K - 1)
           = revcomp ((f * 4 + c) mod 4 ^ K) K"
proof -
  obtain k where K: "K = Suc k" using assms(1) by (cases K) simp_all
  let ?r = "revcomp f K"
  let ?s = "?r div 4 + comp_NT ! c * 4 ^ k"
  have gv: "getVal c = c" using assms(3) by (simp add: getVal_def)
  have "?r < 4 ^ K" by (rule revcomp_lt)
  then have r4: "?r div 4 < 4 ^ k" unfolding K by simp
  moreover have "comp_NT ! c * 4 ^ k \<le> 3 * 4 ^ k" using comp_NT_lt [OF assms(3)] by simp
  ultimately have lt: "?s < 4 ^ K" unfolding K power_Suc by linarith
  have "comp_NT ! c * 4 ^ k < 4 ^ K" using lt by simp
  also have "(4::nat) ^ K \<le> 4 ^ K * 4" by simp
  also have "\<dots> \<le> 2 ^ Type_getSize span" by (rule pow4_lt_size [OF assms(2)])
  finally have sh: "Type_shl span (comp_NT ! c) (2 * (K - 1)) = comp_NT ! c * 2 ^ (2 * k)"
    by (simp add: Type_shl_def Type_wrap_def pow4_eq K)
  have "?r div 4 < 2 ^ (2 * k)" using r4 by (simp add: pow4_eq)
  then have "comp_NT ! c * 2 ^ (2 * k) OR ?r div 4 = comp_NT ! c * 2 ^ (2 * k) + ?r div 4"
    by (rule or_add_nat)
  then have "Type_shr ?r 2 OR Type_shl span (comp_NT ! getVal c) (2 * (K - 1)) = ?s"
    unfolding gv sh by (simp add: Type_shr_def or.commute pow4_eq)
  then have "(Type_shr ?r 2 OR Type_shl span (comp_NT ! getVal c) (2 * (K - 1))) AND (4 ^ K - 1) = ?s mod 4 ^ K"
    by (simp only: and_mask4)
  also have "\<dots> = ?s" using lt by simp
  also have "\<dots> = revcomp ((f * 4 + c) mod 4 ^ K) K"
    unfolding K by (rule revcomp_slide [OF assms(3), symmetric])
  finally show ?thesis .
qed

lemma digit_above:
  fixes p :: nat
  assumes "2 * e + 2 \<le> n"
  shows "(a * 2 ^ n + p) div 4 ^ e mod 4 = p div 4 ^ e mod 4"
proof -
  obtain d where n: "n = 2 * e + 2 + d" using assms by (metis le_Suc_ex)
  have "(2::nat) ^ n = 4 ^ e * (4 * 2 ^ d)" unfolding n by (simp add: pow4_eq power_add)
  then have "a * 2 ^ n + p = p + 4 ^ e * (4 * (a * 2 ^ d))" by simp
  then have "(a * 2 ^ n + p) div 4 ^ e = p div 4 ^ e + 4 * (a * 2 ^ d)"
    by (simp only: div_mult_self2 [of "4 ^ e" p] power_not_zero zero_neq_numeral not_False_eq_True)
  then show ?thesis by simp
qed

lemma minimizer_produced_pair:
  assumes "ModelMinimizer_new span K m = Inr M" "minimizer_produced M k"
  shows "table1 k = revcomp (table0 k) K \<and> choice k = (if table0 k < table1 k then 0 else 1)"
  using assms(2)
proof (induction rule: minimizer_produced.induct)
  note MM = ModelMinimizer_new_Inr [OF assms(1)]
  note KM = ModelAbstract_new_Inr [OF MM(3)]
  have K1: "1 \<le> K" using MM(1) by simp
  {
    case (m_first conv seq k0)
    show ?case
      by (simp add: ModelMinimizer_first_base ModelCanonical_first_fields KM(3))
  next
    case (m_next k c valid)
    then show ?case
      using ModelCanonical_next_table1 [OF MM(3) K1, of c k valid]
      by (simp add: ModelMinimizer_next_base ModelCanonical_next_choice)
  }
qed

lemma kmers_from_length: "length (kmers_from M k cs) = Suc (length cs)"
  by (induction cs arbitrary: k) simp_all

lemma kmers_from_0: "kmers_from M k cs ! 0 = k"
  by (cases cs) simp_all

lemma kmers_from_Suc:
  "i < length cs \<Longrightarrow>
   kmers_from M k cs ! Suc i = ModelMinimizer_next M (fst (cs ! i)) (kmers_from M k cs ! i) (snd (cs ! i))"
proof (induction cs arbitrary: k i)
  case Nil
  then show ?case by simp
next
  case (Cons c cs)
  show ?case
  proof (cases i)
    case 0
    then show ?thesis by (simp add: kmers_from_0)
  next
    case (Suc i')
    then show ?thesis using Cons.IH [of i'] Cons.prems by simp
  qed
qed

lemma kmers_from_produced:
  assumes "minimizer_produced M k" "\<forall>c\<in>set cs. fst c < 4" "i \<le> length cs"
  shows "minimizer_produced M (kmers_from M k cs ! i)"
  using assms(3)
proof (induction i)
  case 0
  show ?case using assms(1) by (simp add: kmers_from_0)
next
  case (Suc i)
  then have i: "i < length cs" by simp
  then have "fst (cs ! i) < 4" using assms(2) by simp
  then show ?case using Suc i by (simp add: kmers_from_Suc m_next)
qed

lemma size_ge_64: "K < span \<Longrightarrow> 64 \<le> Type_getSize span"
  by (simp add: Type_getSize_def)

lemma hi_bits:
  fixes a p :: nat
  assumes "p < 2 ^ d"
  shows "(a * 2 ^ d + p) div 2 ^ d = a"
  using assms by simp

lemma le_mult_pow: "(a::nat) \<le> a * 2 ^ d"
  by simp

lemma save_value:
  assumes sz: "sk_size src = Suc n" and cap: "2 * n + 8 \<le> Type_getSize span" and L: "Suc n \<le> 255"
  shows "save span src bag =
     bag @ [Suc n * 2 ^ (Type_getSize span - 8)
              + foldl (\<lambda>p ii. Type_shl span p 2 OR (forward (sk_at src ii) AND 3)) 0 [1..<Suc n],
            forward (sk_at src 0)]"
proof -
  let ?W = "Type_getSize span"
  let ?P = "foldl (\<lambda>p ii. Type_shl span p 2 OR (forward (sk_at src ii) AND 3)) 0 [1..<Suc n]"
  have W: "?W = 8 + (?W - 8)" using cap by simp
  have p8: "(2::nat) ^ ?W = 2 ^ 8 * 2 ^ (?W - 8)" by (subst W) (simp only: power_add)
  have "Suc n < 2 ^ 8" using L by simp
  then have "Suc n * 2 ^ (?W - 8) < 2 ^ 8 * 2 ^ (?W - 8)" by (intro mult_strict_right_mono) simp_all
  then have big: "Suc n * 2 ^ (?W - 8) < 2 ^ ?W" by (simp only: p8)
  have "Suc n \<le> Suc n * 2 ^ (?W - 8)" by (rule le_mult_pow)
  then have small: "Suc n < 2 ^ ?W" using big by linarith
  have wrap: "Type_shl span (Type_wrap span (Suc n)) (?W - 8) = Suc n * 2 ^ (?W - 8)"
    using small big by (simp add: Type_shl_def Type_wrap_def)
  have "?P < 4 ^ n" using payload [of n span "\<lambda>ii. forward (sk_at src ii)"] cap by simp
  also have "(4::nat) ^ n = 2 ^ (2 * n)" by (rule pow4_eq)
  also have "\<dots> \<le> 2 ^ (?W - 8)" using cap by (intro power_increasing) simp_all
  finally have P: "?P < 2 ^ (?W - 8)" .
  have "Suc n * 2 ^ (?W - 8) OR ?P = Suc n * 2 ^ (?W - 8) + ?P" using P by (rule or_add_nat)
  then have "?P OR Type_shl span (Type_wrap span (Suc n)) (?W - 8) = Suc n * 2 ^ (?W - 8) + ?P"
    unfolding wrap by (simp only: or.commute)
  then show ?thesis unfolding save_def Let_def sz by simp
qed

lemma load_nbK:
  assumes P: "P < 2 ^ (W - 8)" and L: "Suc n \<le> 255"
  shows "getVal (Type_shr (Suc n * 2 ^ (W - 8) + P) (W - 8)) AND 255 = Suc n"
proof -
  have "(Suc n * 2 ^ (W - 8) + P) div 2 ^ (W - 8) = Suc n" using P by (rule hi_bits)
  then have "getVal (Type_shr (Suc n * 2 ^ (W - 8) + P) (W - 8)) = Suc n"
    unfolding Type_shr_def getVal_def using L by simp
  moreover have "Suc n AND 255 = Suc n mod 4 ^ 4" using and_mask4 [of "Suc n" 4] by simp
  ultimately show ?thesis using L by simp
qed

lemma load_save:
  assumes M: "ModelMinimizer_new span K m = Inr M"
    and k: "minimizer_produced M k"
    and cs: "\<forall>c\<in>set cs. fst c < 4"
    and src: "map (sk_at src) [0..<sk_size src] = kmers_from M k cs"
    and cap: "2 * length cs + 8 \<le> Type_getSize span"
    and L: "Suc (length cs) \<le> 255"
    and dst: "sk_kmerSize dst = K" "length cs < length (kmers dst)"
    and i: "i \<le> length cs"
  shows "kmers (load span dst (save span src bag ! length bag) (save span src bag ! Suc (length bag))) ! i
           = set2 (table1 (kmers_from M k cs ! i)) (table0 (kmers_from M k cs ! i)) (kmers dst ! i)"
proof -
  note MM = ModelMinimizer_new_Inr [OF M]
  let ?n = "length cs"
  let ?W = "Type_getSize span"
  let ?ks = "kmers_from M k cs"
  let ?f = "\<lambda>j. table0 (?ks ! j)"
  let ?r = "\<lambda>j. table1 (?ks ! j)"
  let ?P = "foldl (\<lambda>p ii. Type_shl span p 2 OR (forward (sk_at src ii) AND 3)) 0 [1..<Suc ?n]"
  let ?superk = "Suc ?n * 2 ^ (?W - 8) + ?P"
  have K1: "1 \<le> K" using MM(1) by simp
  have sz: "sk_size src = Suc ?n"
    using arg_cong [OF src, of length] by (simp add: kmers_from_length)
  have at: "sk_at src j = ?ks ! j" if "j \<le> ?n" for j
  proof -
    have a: "j < sk_size src" using that sz by simp
    then have "map (sk_at src) [0..<sk_size src] ! j = sk_at src ([0..<sk_size src] ! j)"
      by (intro nth_map) simp
    also have "[0..<sk_size src] ! j = j" using nth_upt [of 0 j "sk_size src"] a by simp
    finally show ?thesis unfolding src by simp
  qed
  have sv: "save span src bag = bag @ [?superk, forward (sk_at src 0)]"
    using sz cap L by (rule save_value)
  have s0: "save span src bag ! length bag = ?superk" unfolding sv by simp
  have s1: "save span src bag ! Suc (length bag) = ?f 0"
    unfolding sv using at [of 0] by (simp add: forward_def nth_append)
  have pay: "?P < 4 ^ ?n" "\<And>j. j < ?n \<Longrightarrow> ?P div 4 ^ j mod 4 = forward (sk_at src (?n - j)) mod 4"
    using payload [of ?n span "\<lambda>ii. forward (sk_at src ii)"] cap by simp_all
  have "(4::nat) ^ ?n = 2 ^ (2 * ?n)" by (rule pow4_eq)
  also have "\<dots> \<le> 2 ^ (?W - 8)" using cap by (intro power_increasing) simp_all
  finally have P: "?P < 2 ^ (?W - 8)" using pay(1) by simp
  have nbK: "getVal (Type_shr ?superk (?W - 8)) AND 255 = Suc ?n" using P L by (rule load_nbK)
  have msk: "Type_sub span (Type_shl span 1 (K * 2)) 1 = 4 ^ K - 1" by (rule Type_mask_value [OF MM(2)])
  have prod: "minimizer_produced M (?ks ! j)" if "j \<le> ?n" for j
    using k cs that by (rule kmers_from_produced)
  have pair: "?r j = revcomp (?f j) K" if "j \<le> ?n" for j
    using minimizer_produced_pair [OF M prod [OF that]] by simp
  have nxt: "?f (Suc j) = (?f j * 4 + fst (cs ! j)) mod 4 ^ K" if "j < ?n" for j
    using that cs
    by (simp add: kmers_from_Suc ModelMinimizer_next_base(2) ModelCanonical_next_table0 [OF MM(3)])
  have digit: "Type_shr ?superk (2 * (Suc ?n - j - 2)) AND 3 = fst (cs ! j)" if "j < ?n" for j
  proof -
    let ?e = "?n - Suc j"
    have e: "Suc ?n - j - 2 = ?e" by simp
    have c4: "fst (cs ! j) < 4" using that cs by simp
    have "Type_shr ?superk (2 * ?e) AND 3 = ?superk div 4 ^ ?e mod 4"
      using and_mask4 [of "?superk div 4 ^ ?e" 1] by (simp add: Type_shr_def pow4_eq)
    also have "\<dots> = ?P div 4 ^ ?e mod 4" using that cap by (intro digit_above) simp
    also have "\<dots> = forward (sk_at src (?n - ?e)) mod 4" using that by (intro pay(2)) simp
    also have "?n - ?e = Suc j" using that by simp
    also have "forward (sk_at src (Suc j)) = ?f (Suc j)" using at [of "Suc j"] that by (simp add: forward_def)
    also have "?f (Suc j) mod 4 = (?f j * 4 + fst (cs ! j)) mod 4"
      unfolding nxt [OF that] using K1 by (intro mod_mod_cancel) (simp add: dvd_power)
    also have "\<dots> = fst (cs ! j)" using c4 by simp
    finally show ?thesis unfolding e .
  qed
  have stepf: "(Type_shl span (?f j) 2 OR (Type_shr ?superk (2 * (Suc ?n - j - 2)) AND 3)) AND (4 ^ K - 1)
      = ?f (Suc j)" if "0 \<le> j" "Suc j < Suc ?n" for j
  proof -
    have j: "j < ?n" using that by simp
    have c4: "fst (cs ! j) < 4" using j cs by simp
    show ?thesis unfolding digit [OF j] nxt [OF j] using MM(2) c4 by (rule load_step_fwd)
  qed
  have stepr: "(Type_shr (?r j) 2 OR Type_shl span (comp_NT ! getVal (Type_shr ?superk (2 * (Suc ?n - j - 2)) AND 3))
        (2 * (K - 1))) AND (4 ^ K - 1) = ?r (Suc j)" if "0 \<le> j" "Suc j < Suc ?n" for j
  proof -
    have j: "j < ?n" using that by simp
    have c4: "fst (cs ! j) < 4" using j cs by simp
    have a: "?r j = revcomp (?f j) K" using j by (intro pair) simp
    have b: "?r (Suc j) = revcomp ((?f j * 4 + fst (cs ! j)) mod 4 ^ K) K"
      using pair [of "Suc j"] j nxt [OF j] by simp
    show ?thesis unfolding digit [OF j] a b using K1 MM(2) c4 by (rule load_step_rev)
  qed
  have len: "Suc ?n \<le> length (kmers dst)" using dst(2) by simp
  have loop: "\<forall>i<length (kmers dst).
      load_loop span (4 ^ K - 1) (2 * (K - 1)) ?superk (Suc ?n) 0 (Suc ?n) (?f 0) (?r 0) (kmers dst) ! i
        = (if 0 \<le> i \<and> i < Suc ?n then set2 (?r i) (?f i) (kmers dst ! i) else kmers dst ! i)"
    using load_loop_nth [of "Suc ?n" "kmers dst" "Suc ?n" 0 span ?f ?superk "4 ^ K - 1" ?r "2 * (K - 1)",
      OF len _ _ stepf stepr]
    by simp
  have ld: "kmers (load span dst ?superk (?f 0))
      = load_loop span (4 ^ K - 1) (2 * (K - 1)) ?superk (Suc ?n) 0 (Suc ?n) (?f 0) (?r 0) (kmers dst)"
    unfolding load_def Let_def dst(1) nbK msk using pair [of 0] by simp
  show ?thesis unfolding s0 s1 ld using loop i dst(2) by simp
qed

lemma set2_fields:
  "table0 (set2 a b d) = a" "table1 (set2 a b d) = b"
  by (simp_all add: set2_def updateChoice_def)

lemma payload_zero:
  assumes "\<forall>ii\<in>set xs. g ii AND 3 = (0::nat)"
  shows "foldl (\<lambda>p ii. Type_shl span p 2 OR (g ii AND 3)) 0 xs = 0"
  using assms by (induction xs rule: rev_induct) (simp_all add: Type_shl_def Type_wrap_def)

lemma kmers_from_zero:
  assumes "ModelMinimizer_new span K m = Inr M" "table0 k = 0" "i \<le> n"
  shows "table0 (kmers_from M k (replicate n (0, v)) ! i) = 0"
  using assms(3)
proof (induction i)
  case 0
  show ?case using assms(2) by (simp add: kmers_from_0)
next
  case (Suc i)
  then have "i < length (replicate n (0::nat, v))" by simp
  then show ?case
    using Suc ModelCanonical_next_table0 [OF ModelMinimizer_new_Inr(3) [OF assms(1)], of 0
        "kmers_from M k (replicate n (0, v)) ! i" v]
    by (simp add: kmers_from_Suc ModelMinimizer_next_base(2))
qed

section \<open>Concrete computations\<close>

lemma upt2: "[0..<2] = [0, 1]" by (simp add: upt_rec)
lemma upt3: "[0..<3] = [0, 1, 2]" by (simp add: upt_rec)

lemmas Type_eval = Type_sub_def Type_shl_def Type_shr_def Type_add_def Type_mul_def Type_wrap_def Type_getSize_def

lemma ascii_AT: "ascii ''AT'' = [0x41, 0x54]"
  by (simp add: ascii_def)



lemma model_K3:
  "ModelAbstract_new 32 3 = Inr \<lparr>getSpan = 32, kmerSize = 3, kmerMask = 63, revcompTable = [32, 48, 0, 16]\<rparr>"
  by (simp add: ModelAbstract_new_def Type_eval comp_NT_def upt4)

lemma model_K4:
  "ModelAbstract_new 32 4 = Inr \<lparr>getSpan = 32, kmerSize = 4, kmerMask = 255, revcompTable = [128, 192, 0, 64]\<rparr>"
  by (simp add: ModelAbstract_new_def Type_eval comp_NT_def upt4)

lemma upt_4_8: "[4..<8] = [4, 5, 6, 7]" by code_simp

lemma int32_small: "int32_of 5 = 5" "int32_of 2 = 2"
  by (simp_all add: int32_of_def)

lemma ascii_ACGNACGT: "ascii ''ACGNACGT'' = [0x41, 0x43, 0x47, 0x4E, 0x41, 0x43, 0x47, 0x54]"
  by (simp add: ascii_def)

lemma conv_ACGNACGT:
  "ConvertASCII [0x41, 0x43, 0x47, 0x4E, 0x41, 0x43, 0x47, 0x54] 0 = (0, 0)"
  "ConvertASCII [0x41, 0x43, 0x47, 0x4E, 0x41, 0x43, 0x47, 0x54] (Suc 0) = (1, 0)"
  "ConvertASCII [0x41, 0x43, 0x47, 0x4E, 0x41, 0x43, 0x47, 0x54] 2 = (3, 0)"
  "ConvertASCII [0x41, 0x43, 0x47, 0x4E, 0x41, 0x43, 0x47, 0x54] 3 = (3, 1)"
  "ConvertASCII [0x41, 0x43, 0x47, 0x4E, 0x41, 0x43, 0x47, 0x54] 4 = (0, 0)"
  "ConvertASCII [0x41, 0x43, 0x47, 0x4E, 0x41, 0x43, 0x47, 0x54] 5 = (1, 0)"
  "ConvertASCII [0x41, 0x43, 0x47, 0x4E, 0x41, 0x43, 0x47, 0x54] 6 = (3, 0)"
  "ConvertASCII [0x41, 0x43, 0x47, 0x4E, 0x41, 0x43, 0x47, 0x54] 7 = (2, 0)"
  by (simp_all add: ConvertASCII_def)

lemma ModelDirect_next_eval:
  assumes "ModelAbstract_new span K = Inr M" "c < 4"
  shows "ModelDirect_next M c v valid = \<lparr>kd_value = (kd_value v * 4 + c) mod 4 ^ K, kd_isValid = valid\<rparr>"
  using ModelDirect_next_fields(2) [OF assms, of v valid] ModelDirect_next_fields(1) [of M c v valid]
  by (cases "ModelDirect_next M c v valid") simp

lemma polynom_step_eval:
  "fst (conv seq i) < 4 \<Longrightarrow> v < 2 ^ 62 \<Longrightarrow>
   polynom_step 32 conv seq (bad, v) i
     = (if snd (conv seq i) \<noteq> 0 then int i else bad, v * 4 + fst (conv seq i))"
  by (simp add: polynom_step_def Type_eval Let_def)

lemma first_ACGN:
  "ModelDirect_first \<lparr>getSpan = 32, kmerSize = 4, kmerMask = 255, revcompTable = [128, 192, 0, 64]\<rparr>
     ConvertASCII [0x41, 0x43, 0x47, 0x4E, 0x41, 0x43, 0x47, 0x54] KmerDirect_new
   = (3, \<lparr>kd_value = 31, kd_isValid = False\<rparr>)"
  by (simp add: ModelDirect_first_def polynom_def upt4 conv_ACGNACGT polynom_step_eval
        KmerDirect_new_def)

lemma iterate_ACGNACGT:
  "ModelDirect_iterate (projr (ModelAbstract_new 32 4))
     \<lparr>getBuffer = ascii ''ACGNACGT'', data_size = 8, getEncoding = ASCII\<rparr>
   = (True, [(\<lparr>kd_value = 31, kd_isValid = False\<rparr>, 0), (\<lparr>kd_value = 124, kd_isValid = False\<rparr>, 1),
             (\<lparr>kd_value = 241, kd_isValid = False\<rparr>, 2), (\<lparr>kd_value = 199, kd_isValid = False\<rparr>, 3),
             (\<lparr>kd_value = 30, kd_isValid = True\<rparr>, 4)])"
  by (simp add: model_K4 ModelDirect_iterate_def execute_def iterate_def int32_small upt_4_8
        ascii_ACGNACGT first_ACGN iterate_step_def conv_ACGNACGT ModelDirect_next_eval [OF model_K4] Let_def)







lemma ModelMinimizer_new_ok:
  assumes "m < K" "K < span"
  shows "ModelMinimizer_new span K m = Inr (projr (ModelMinimizer_new span K m))"
  using assms by (simp add: ModelMinimizer_new_def ModelAbstract_new_def Let_def)


lemma ascii_GCA: "ascii ''GCA'' = [0x47, 0x43, 0x41]"
  by (simp add: ascii_def)

lemma conv_GCA:
  "ConvertASCII [0x47, 0x43, 0x41] 0 = (3, 0)"
  "ConvertASCII [0x47, 0x43, 0x41] (Suc 0) = (1, 0)"
  "ConvertASCII [0x47, 0x43, 0x41] 2 = (0, 0)"
  by (simp_all add: ConvertASCII_def)

lemma model_K3_m2:
  "ModelMinimizer_new 32 3 2 = Inr (projr (ModelMinimizer_new 32 3 2))"
  "kmerModel (projr (ModelMinimizer_new 32 3 2))
     = \<lparr>getSpan = 32, kmerSize = 3, kmerMask = 63, revcompTable = [32, 48, 0, 16]\<rparr>"
  "nbMinimizers (projr (ModelMinimizer_new 32 3 2)) = 2"
  "mm_mask (projr (ModelMinimizer_new 32 3 2)) = 15"
proof -
  show M: "ModelMinimizer_new 32 3 2 = Inr (projr (ModelMinimizer_new 32 3 2))"
    by (rule ModelMinimizer_new_ok) simp_all
  note MM = ModelMinimizer_new_Inr [OF M]
  show "kmerModel (projr (ModelMinimizer_new 32 3 2))
     = \<lparr>getSpan = 32, kmerSize = 3, kmerMask = 63, revcompTable = [32, 48, 0, 16]\<rparr>"
    using MM(3) unfolding model_K3 by simp
  show "nbMinimizers (projr (ModelMinimizer_new 32 3 2)) = 2" using MM(7) by simp
  show "mm_mask (projr (ModelMinimizer_new 32 3 2)) = 15"
    using minimizer_sizes(1) [OF M] by simp
qed

lemma mmer_at_K3_m2:
  "mmer_at (projr (ModelMinimizer_new 32 3 2)) k i
     = min (table0 k div 4 ^ i mod 16) (revcomp (table0 k div 4 ^ i mod 16) 2)"
  using mmer_at_eval [OF model_K3_m2(1), of k i] by (simp add: is_allowed_len2)

lemma first_GCA:
  "table0 (snd (ModelMinimizer_first (projr (ModelMinimizer_new 32 3 2)) ConvertASCII (ascii ''GCA'')
      KmerMinimizer_new)) = 52"
  by (simp add: ModelMinimizer_first_base(3) model_K3_m2(2) ModelCanonical_first_def polynom_def upt3
        ascii_GCA conv_GCA polynom_step_eval Let_def updateChoice_def)

lemma mmer_GCA:
  "mmer_at (projr (ModelMinimizer_new 32 3 2))
     (snd (ModelMinimizer_first (projr (ModelMinimizer_new 32 3 2)) ConvertASCII (ascii ''GCA'')
        KmerMinimizer_new)) 0 = 4"
  "mmer_at (projr (ModelMinimizer_new 32 3 2))
     (snd (ModelMinimizer_first (projr (ModelMinimizer_new 32 3 2)) ConvertASCII (ascii ''GCA'')
        KmerMinimizer_new)) (Suc 0) = 13"
  by (simp_all add: mmer_at_K3_m2 first_GCA revcomp_numeral comp_NT_def)

lemma ascii_CAT: "ascii ''CAT'' = [0x43, 0x41, 0x54]"
  by (simp add: ascii_def)

lemma conv_CAT:
  "ConvertASCII [0x43, 0x41, 0x54] 0 = (1, 0)"
  "ConvertASCII [0x43, 0x41, 0x54] (Suc 0) = (0, 0)"
  "ConvertASCII [0x43, 0x41, 0x54] 2 = (2, 0)"
  by (simp_all add: ConvertASCII_def)

lemma first_CAT_minimizer:
  "table0 (snd (ModelMinimizer_first (projr (ModelMinimizer_new 32 3 2)) ConvertASCII (ascii ''CAT'')
      KmerMinimizer_new)) = 18"
  by (simp add: ModelMinimizer_first_base(3) model_K3_m2(2) ModelCanonical_first_def polynom_def upt3
        ascii_CAT conv_CAT polynom_step_eval Let_def updateChoice_def)

lemma mmer_CAT:
  "mmer_at (projr (ModelMinimizer_new 32 3 2))
     (snd (ModelMinimizer_first (projr (ModelMinimizer_new 32 3 2)) ConvertASCII (ascii ''CAT'')
        KmerMinimizer_new)) 0 = 2"
  "mmer_at (projr (ModelMinimizer_new 32 3 2))
     (snd (ModelMinimizer_first (projr (ModelMinimizer_new 32 3 2)) ConvertASCII (ascii ''CAT'')
        KmerMinimizer_new)) (Suc 0) = 4"
  by (simp_all add: mmer_at_K3_m2 first_CAT_minimizer revcomp_numeral comp_NT_def)

lemma lessThan_two: "{..<(2::nat)} = {0, Suc 0}"
  by auto

lemma ascii_AAA: "ascii ''AAA'' = [0x41, 0x41, 0x41]"
  by (simp add: ascii_def)

lemma conv_AAA:
  "ConvertASCII [0x41, 0x41, 0x41] 0 = (0, 0)"
  "ConvertASCII [0x41, 0x41, 0x41] (Suc 0) = (0, 0)"
  "ConvertASCII [0x41, 0x41, 0x41] 2 = (0, 0)"
  by (simp_all add: ConvertASCII_def)

lemma first_AAA:
  "table0 (snd (ModelMinimizer_first (projr (ModelMinimizer_new 32 3 2)) ConvertASCII (ascii ''AAA'')
      KmerMinimizer_new)) = 0"
  by (simp add: ModelMinimizer_first_base(3) model_K3_m2(2) ModelCanonical_first_def polynom_def upt3
        ascii_AAA conv_AAA polynom_step_eval Let_def updateChoice_def)

lemma run_AAA:
  assumes "i \<le> 29"
  shows "table0 (kmers_from (projr (ModelMinimizer_new 32 3 2))
      (snd (ModelMinimizer_first (projr (ModelMinimizer_new 32 3 2)) ConvertASCII (ascii ''AAA'')
         KmerMinimizer_new)) (replicate 29 (0, True)) ! i) = 0"
    "table1 (kmers_from (projr (ModelMinimizer_new 32 3 2))
      (snd (ModelMinimizer_first (projr (ModelMinimizer_new 32 3 2)) ConvertASCII (ascii ''AAA'')
         KmerMinimizer_new)) (replicate 29 (0, True)) ! i) = 42"
    "kc_value (minimizer (kmers_from (projr (ModelMinimizer_new 32 3 2))
      (snd (ModelMinimizer_first (projr (ModelMinimizer_new 32 3 2)) ConvertASCII (ascii ''AAA'')
         KmerMinimizer_new)) (replicate 29 (0, True)) ! i)) = 0"
proof -
  let ?M = "projr (ModelMinimizer_new 32 3 2)"
  let ?k = "snd (ModelMinimizer_first ?M ConvertASCII (ascii ''AAA'') KmerMinimizer_new)"
  let ?ks = "kmers_from ?M ?k (replicate 29 (0, True))"
  show t0: "table0 (?ks ! i) = 0"
    using model_K3_m2(1) first_AAA assms by (rule kmers_from_zero)
  have p: "minimizer_produced ?M (?ks ! i)"
    using assms by (intro kmers_from_produced m_first) simp_all
  show "table1 (?ks ! i) = 42"
    using minimizer_produced_pair [OF model_K3_m2(1) p] unfolding t0
    by (simp add: revcomp_numeral comp_NT_def)
  have "minimizer_inv ?M (?ks ! i)"
    using model_K3_m2(1) _ p by (rule minimizer_produced_inv) simp
  then have "kc_value (minimizer (?ks ! i)) \<le> mmer_at ?M (?ks ! i) 0"
    unfolding minimizer_inv_def by (simp add: model_K3_m2(3))
  then show "kc_value (minimizer (?ks ! i)) = 0"
    by (simp add: mmer_at_K3_m2 t0 revcomp_numeral comp_NT_def)
qed

lemma load_loop_two:
  assumes "1 < length ks"
  shows "load_loop 32 63 4 (30 * 2 ^ 56) 30 0 30 0 42 ks ! 1 = set2 10 2 (ks ! 1)"
proof -
  let ?ks1 = "ks[0 := set2 42 0 (ks ! 0)]"
  have d: "Type_shr (30 * 2 ^ 56) (2 * (30 - 2)) AND 3 = (2::nat)"
    by (simp add: Type_shr_def)
  have t: "(Type_shl 32 0 2 OR (2::nat)) AND 63 = 2"
    by (simp add: Type_shl_def Type_wrap_def)
  have r: "(Type_shr 42 2 OR Type_shl 32 (comp_NT ! getVal 2) 4) AND 63 = 10"
    by (simp add: Type_shl_def Type_shr_def Type_wrap_def getVal_def comp_NT_def)
  have it0: "load_loop 32 63 4 (30 * 2 ^ 56) 30 0 30 0 42 ks
      = load_loop 32 63 4 (30 * 2 ^ 56) 30 (0 + 1) (30 - 1) 2 10 ?ks1"
    by (subst load_loop.simps) (simp only: Let_def d t r, simp)
  have it1: "load_loop 32 63 4 (30 * 2 ^ 56) 30 1 29 2 10 ?ks1
      = load_loop 32 63 4 (30 * 2 ^ 56) 30 (1 + 1) (29 - 1)
          ((Type_shl 32 2 2 OR (Type_shr (30 * 2 ^ 56) (2 * (29 - 2)) AND 3)) AND 63)
          ((Type_shr 10 2 OR Type_shl 32 (comp_NT ! getVal (Type_shr (30 * 2 ^ 56) (2 * (29 - 2)) AND 3)) 4) AND 63)
          (?ks1[1 := set2 10 2 (?ks1 ! 1)])"
    by (subst load_loop.simps) (simp add: Let_def)
  have "load_loop 32 63 4 (30 * 2 ^ 56) 30 (1 + 1) (29 - 1)
          ((Type_shl 32 2 2 OR (Type_shr (30 * 2 ^ 56) (2 * (29 - 2)) AND 3)) AND 63)
          ((Type_shr 10 2 OR Type_shl 32 (comp_NT ! getVal (Type_shr (30 * 2 ^ 56) (2 * (29 - 2)) AND 3)) 4) AND 63)
          (?ks1[1 := set2 10 2 (?ks1 ! 1)]) ! 1
      = (?ks1[1 := set2 10 2 (?ks1 ! 1)]) ! 1"
    by (intro conjunct1 [OF load_loop_before]) simp
  then show ?thesis unfolding it0 using it1 assms by simp
qed

section \<open>Neighbor enumeration\<close>

text \<open>
  C6. For a model of k-mer size \<open>K\<close> and \<open>mask = (1 << 2K) - 1\<close>, \<open>iterateNeighbors\<close> with the
  mask \<open>0xFF\<close> calls the functor exactly 8 times: the 4 outgoing neighbors first, then the 4
  incoming ones, each group for \<open>nt = 0, 1, 2, 3\<close> in this order. The outgoing call for \<open>nt\<close>
  receives \<open>min next1 (RC next1)\<close> with \<open>next1 = ((s << 2) | nt) & mask\<close>, the incoming one the
  same with \<open>next1 = ((RC s << 2) | (nt ^ 2)) & mask\<close>.
\<close>

theorem iterateNeighbors_eight:
  assumes "ModelAbstract_new span K = Inr M"
  shows "iterateNeighbors M s 0xFF =
    map (\<lambda>nt. min ((Type_shl span s 2 OR nt) AND (2 ^ (2 * K) - 1))
                  (revcomp ((Type_shl span s 2 OR nt) AND (2 ^ (2 * K) - 1)) K)) [0, 1, 2, 3]
    @ map (\<lambda>nt. min ((Type_shl span (revcomp s K) 2 OR (nt XOR 2)) AND (2 ^ (2 * K) - 1))
                    (revcomp ((Type_shl span (revcomp s K) 2 OR (nt XOR 2)) AND (2 ^ (2 * K) - 1)) K))
        [0, 1, 2, 3]"
proof -
  note M = ModelAbstract_new_Inr [OF assms]
  have msk: "getKmerMax M = 2 ^ (2 * K) - 1" by (simp add: getKmerMax_def M(4) pow4_eq)
  have nxt: "Type_add (getSpan M) (Type_mul (getSpan M) x 4) c = Type_shl span x 2 OR c"
    if "c < 4" for x c
    using shl2_or [OF M(1) that] by (simp add: M(2) Type_mul4)
  have bits: "(drop_bit 0 (0xFF :: 8 word) AND 15) AND push_bit (0::nat) 1 \<noteq> 0"
    "(drop_bit 0 (0xFF :: 8 word) AND 15) AND push_bit (1::nat) 1 \<noteq> 0"
    "(drop_bit 0 (0xFF :: 8 word) AND 15) AND push_bit (2::nat) 1 \<noteq> 0"
    "(drop_bit 0 (0xFF :: 8 word) AND 15) AND push_bit (3::nat) 1 \<noteq> 0"
    "(drop_bit 4 (0xFF :: 8 word) AND 15) AND push_bit (0::nat) 1 \<noteq> 0"
    "(drop_bit 4 (0xFF :: 8 word) AND 15) AND push_bit (1::nat) 1 \<noteq> 0"
    "(drop_bit 4 (0xFF :: 8 word) AND 15) AND push_bit (2::nat) 1 \<noteq> 0"
    "(drop_bit 4 (0xFF :: 8 word) AND 15) AND push_bit (3::nat) 1 \<noteq> 0"
    by simp_all
  have out: "iterateOutgoingNeighbors M s (drop_bit 0 (0xFF :: 8 word) AND 15) =
    map (\<lambda>nt. min ((Type_shl span s 2 OR nt) AND (2 ^ (2 * K) - 1))
                  (revcomp ((Type_shl span s 2 OR nt) AND (2 ^ (2 * K) - 1)) K)) [0, 1, 2, 3]"
    unfolding iterateOutgoingNeighbors_def upt4 Let_def
    by (simp only: list.map concat.simps bits if_True append.simps nxt msk getKmerSize_def M(3))
       (simp add: nxt)
  have xs: "(0::nat) XOR 2 < 4" "(1::nat) XOR 2 < 4" "(2::nat) XOR 2 < 4" "(3::nat) XOR 2 < 4"
    by simp_all
  have inc: "iterateIncomingNeighbors M s (drop_bit 4 (0xFF :: 8 word) AND 15) =
    map (\<lambda>nt. min ((Type_shl span (revcomp s K) 2 OR (nt XOR 2)) AND (2 ^ (2 * K) - 1))
                  (revcomp ((Type_shl span (revcomp s K) 2 OR (nt XOR 2)) AND (2 ^ (2 * K) - 1)) K))
      [0, 1, 2, 3]"
    unfolding iterateIncomingNeighbors_def upt4 Let_def
    by (simp only: list.map concat.simps bits if_True append.simps nxt [OF xs(1)] nxt [OF xs(2)]
          nxt [OF xs(3)] nxt [OF xs(4)] msk getKmerSize_def M(3)) simp
  show ?thesis unfolding iterateNeighbors_def out inc ..
qed

theorem iterateNeighbors_eight_witness:
  "iterateNeighbors \<lparr>getSpan = 32, kmerSize = 3, kmerMask = 63, revcompTable = [32, 48, 0, 16]\<rparr>
     18 0xFF = [8, 9, 2, 11, 4, 20, 36, 45]"
proof -
  have M: "ModelAbstract_new 32 3 =
      Inr \<lparr>getSpan = 32, kmerSize = 3, kmerMask = 63, revcompTable = [32, 48, 0, 16]\<rparr>"
    by (simp add: ModelAbstract_new_def Type_sub_def Type_shl_def Type_wrap_def Type_getSize_def
          comp_NT_def upt4)
  show ?thesis
    unfolding iterateNeighbors_eight [OF M, of 18]
    by (simp add: Type_shl_def Type_wrap_def Type_getSize_def comp_NT_def revcomp_numeral)
qed

section \<open>Canonical k-mers\<close>




section \<open>The minimizer is the minimum of the window\<close>

text \<open>
  C1, as the code has it. For every k-mer produced by \<open>first\<close> or by any sequence of \<open>next\<close>
  steps of a minimizer model over \<^verbatim>\<open>ModelCanonical\<close> (\<^verbatim>\<open>ModelMinimizer<ModelCanonical>\<close>) with
  k-mer size \<open>K\<close> and m-mer size \<open>m\<close> (\<open>2 \<le> m \<le> 15\<close>, \<open>m < K\<close>,
  \<open>nbMinimizers = K - m + 1\<close>): the minimizer value is the minimum over \<open>i\<close> in
  \<open>[0, nbMinimizers)\<close> of \<open>mmerLut[(forward >> 2i) & mmerMask]\<close>. When that minimum is the
  default \<open>mmerMask\<close> the position is \<open>-1\<close>; otherwise the position \<open>p\<close> lies in
  \<open>[0, nbMinimizers)\<close> and counts from the left end of the k-mer, so that the m-mer at the
  shift \<open>2 (nbMinimizers - 1 - p)\<close> has the minimal entry. After \<open>first\<close> the position is
  the largest one whose m-mer has the minimal entry; after \<open>next\<close> an m-mer already chosen
  keeps its place, so there is no such rule.
\<close>

theorem minimizer_is_window_minimum:
  assumes "ModelMinimizer_new span K m = Inr M" "2 \<le> m" "m \<le> 15" "minimizer_produced M k"
  shows "nbMinimizers M = K - m + 1 \<and>
         kc_value (minimizer k) = Min (mmer_at M k ` {..<nbMinimizers M}) \<and>
         ((kc_value (minimizer k) = mm_mask M \<and> position k = -1) \<or>
          (kc_value (minimizer k) < mm_mask M \<and> 0 \<le> position k \<and> position k < int (nbMinimizers M) \<and>
           mmer_at M k (nbMinimizers M - 1 - nat (position k)) = kc_value (minimizer k))) \<and>
         (\<forall>conv seq k0 j. j < nbMinimizers M \<and>
            mmer_at M (snd (ModelMinimizer_first M conv seq k0)) j
              = kc_value (minimizer (snd (ModelMinimizer_first M conv seq k0))) \<and>
            kc_value (minimizer (snd (ModelMinimizer_first M conv seq k0))) < mm_mask M
            \<longrightarrow> int (nbMinimizers M - 1 - j) \<le> position (snd (ModelMinimizer_first M conv seq k0)))"
proof -
  have inv: "minimizer_inv M k" using assms(1,3,4) by (rule minimizer_produced_inv)
  have A: "nbMinimizers M = K - m + 1" using assms(1) by (rule ModelMinimizer_new_Inr(7))
  have B: "kc_value (minimizer k) = Min (mmer_at M k ` {..<nbMinimizers M})"
    using assms(1,3) inv by (rule minimizer_inv_Min)
  have C: "(kc_value (minimizer k) = mm_mask M \<and> position k = -1) \<or>
          (kc_value (minimizer k) < mm_mask M \<and> 0 \<le> position k \<and> position k < int (nbMinimizers M) \<and>
           mmer_at M k (nbMinimizers M - 1 - nat (position k)) = kc_value (minimizer k))"
    using inv unfolding minimizer_inv_def by auto
  have D: "int (nbMinimizers M - 1 - j) \<le> position (snd (ModelMinimizer_first M conv seq k0))"
    if "j < nbMinimizers M \<and>
        mmer_at M (snd (ModelMinimizer_first M conv seq k0)) j
          = kc_value (minimizer (snd (ModelMinimizer_first M conv seq k0))) \<and>
        kc_value (minimizer (snd (ModelMinimizer_first M conv seq k0))) < mm_mask M"
    for conv seq k0 j
  proof -
    obtain r c where rc: "ModelCanonical_first (kmerModel M) conv seq k0 = (r, c)"
      by (cases "ModelCanonical_first (kmerModel M) conv seq k0")
    then have f: "snd (ModelMinimizer_first M conv seq k0) = computeNewMinimizer M c"
      by (simp add: ModelMinimizer_first_def)
    have "mmer_at M (computeNewMinimizer M c) j = mmer_at M c j"
      by (rule mmer_at_cong) (rule computeNewMinimizer_frame(1))
    then show ?thesis
      using that computeNewMinimizer_result [OF assms(1,3), of c] unfolding f by simp
  qed
  show ?thesis using A B C D by blast
qed

theorem minimizer_is_window_minimum_witness:
  "kc_value (minimizer (snd (ModelMinimizer_first (projr (ModelMinimizer_new 32 3 2)) ConvertASCII
      (ascii ''CAT'') KmerMinimizer_new))) = 2 \<and>
   position (snd (ModelMinimizer_first (projr (ModelMinimizer_new 32 3 2)) ConvertASCII
      (ascii ''CAT'') KmerMinimizer_new)) = 1"
proof -
  let ?M = "projr (ModelMinimizer_new 32 3 2)"
  let ?k = "snd (ModelMinimizer_first ?M ConvertASCII (ascii ''CAT'') KmerMinimizer_new)"
  have p: "minimizer_produced ?M ?k" by (rule m_first)
  have m: "(2::nat) \<le> 2" "(2::nat) \<le> 15" by simp_all
  note T = minimizer_is_window_minimum [OF model_K3_m2(1) m p]
  have v: "kc_value (minimizer ?k) = 2"
    using T by (simp add: model_K3_m2(3) lessThan_two mmer_CAT)
  have "position ?k = 1"
  proof -
    from T v have q: "0 \<le> position ?k" "position ?k < 2"
      "mmer_at ?M ?k (2 - 1 - nat (position ?k)) = 2"
      by (simp_all add: model_K3_m2(3,4))
    show ?thesis
    proof (rule ccontr)
      assume "position ?k \<noteq> 1"
      then have "position ?k = 0" using q(1,2) by simp
      then show False using q(3) by (simp add: mmer_CAT)
    qed
  qed
  then show ?thesis using v by simp
qed

text \<open>
  The position is not the shift index of the formula: for \<open>GCA\<close> (\<open>K = 3\<close>, \<open>m = 2\<close>, two
  m-mers) the only minimal m-mer is \<open>CA\<close> at the shift 0, with the entry 4 against 13 for
  \<open>GC\<close>, and the position is 1.
\<close>

theorem minimizer_position_counterexample:
  "nbMinimizers (projr (ModelMinimizer_new 32 3 2)) = 2 \<and>
   mmer_at (projr (ModelMinimizer_new 32 3 2))
     (snd (ModelMinimizer_first (projr (ModelMinimizer_new 32 3 2)) ConvertASCII (ascii ''GCA'')
        KmerMinimizer_new)) 0 = 4 \<and>
   mmer_at (projr (ModelMinimizer_new 32 3 2))
     (snd (ModelMinimizer_first (projr (ModelMinimizer_new 32 3 2)) ConvertASCII (ascii ''GCA'')
        KmerMinimizer_new)) 1 = 13 \<and>
   kc_value (minimizer (snd (ModelMinimizer_first (projr (ModelMinimizer_new 32 3 2)) ConvertASCII
      (ascii ''GCA'') KmerMinimizer_new))) = 4 \<and>
   position (snd (ModelMinimizer_first (projr (ModelMinimizer_new 32 3 2)) ConvertASCII
      (ascii ''GCA'') KmerMinimizer_new)) = 1"
proof -
  let ?M = "projr (ModelMinimizer_new 32 3 2)"
  let ?k = "snd (ModelMinimizer_first ?M ConvertASCII (ascii ''GCA'') KmerMinimizer_new)"
  have p: "minimizer_produced ?M ?k" by (rule m_first)
  have inv: "minimizer_inv ?M ?k"
    using model_K3_m2(1) _ p by (rule minimizer_produced_inv) simp
  have v: "kc_value (minimizer ?k) = Min (mmer_at ?M ?k ` {..<nbMinimizers ?M})"
    using model_K3_m2(1) _ inv by (rule minimizer_inv_Min) simp
  then have v4: "kc_value (minimizer ?k) = 4"
    by (simp add: model_K3_m2(3) lessThan_two mmer_GCA)
  from inv v4 have q: "0 \<le> position ?k" "position ?k < 2"
      "mmer_at ?M ?k (2 - 1 - nat (position ?k)) = 4"
    unfolding minimizer_inv_def by (simp_all add: model_K3_m2(3,4))
  have "position ?k = 1"
  proof (rule ccontr)
    assume "position ?k \<noteq> 1"
    then have "position ?k = 0" using q(1,2) by simp
    then show False using q(3) by (simp add: mmer_GCA)
  qed
  then show ?thesis using v4 by (simp add: model_K3_m2(3) mmer_GCA)
qed

text \<open>
  The same window \<open>AAA\<close> (both m-mers \<open>AA\<close>, entry 0) has position 1 after \<open>first\<close> and
  position 0 after a \<open>next\<close> step: \<open>next\<close> keeps the m-mer it had chosen and only moves
  its position one place to the left.
\<close>

lemma minimizer_tie_after_next:
  "position (snd (ModelMinimizer_first (projr (ModelMinimizer_new 32 3 2)) ConvertASCII (ascii ''AAA'')
      KmerMinimizer_new)) = 1 \<and>
   position (ModelMinimizer_next (projr (ModelMinimizer_new 32 3 2)) 0
     (snd (ModelMinimizer_first (projr (ModelMinimizer_new 32 3 2)) ConvertASCII (ascii ''AAA'')
        KmerMinimizer_new)) True) = 0 \<and>
   mmer_at (projr (ModelMinimizer_new 32 3 2)) (ModelMinimizer_next (projr (ModelMinimizer_new 32 3 2)) 0
     (snd (ModelMinimizer_first (projr (ModelMinimizer_new 32 3 2)) ConvertASCII (ascii ''AAA'')
        KmerMinimizer_new)) True) 0 = 0 \<and>
   mmer_at (projr (ModelMinimizer_new 32 3 2)) (ModelMinimizer_next (projr (ModelMinimizer_new 32 3 2)) 0
     (snd (ModelMinimizer_first (projr (ModelMinimizer_new 32 3 2)) ConvertASCII (ascii ''AAA'')
        KmerMinimizer_new)) True) 1 = 0"
proof -
  let ?M = "projr (ModelMinimizer_new 32 3 2)"
  let ?k = "snd (ModelMinimizer_first ?M ConvertASCII (ascii ''AAA'') KmerMinimizer_new)"
  let ?k' = "ModelMinimizer_next ?M 0 ?k True"
  have m: "(2::nat) \<le> 15" by simp
  have at: "mmer_at ?M ?k 0 = 0" "mmer_at ?M ?k (Suc 0) = 0"
    by (simp_all add: mmer_at_K3_m2 first_AAA revcomp_numeral comp_NT_def)
  have inv: "minimizer_inv ?M ?k"
    using model_K3_m2(1) m by (rule minimizer_produced_inv) (rule m_first)
  then have "kc_value (minimizer ?k) \<le> mmer_at ?M ?k 0"
    unfolding minimizer_inv_def by (simp add: model_K3_m2(3))
  then have v: "kc_value (minimizer ?k) = 0" using at(1) by simp
  obtain r c where rc: "ModelCanonical_first (kmerModel ?M) ConvertASCII (ascii ''AAA'') KmerMinimizer_new = (r, c)"
    by (cases "ModelCanonical_first (kmerModel ?M) ConvertASCII (ascii ''AAA'') KmerMinimizer_new")
  then have f: "?k = computeNewMinimizer ?M c" by (simp add: ModelMinimizer_first_def)
  have atc: "mmer_at ?M c 0 = mmer_at ?M ?k 0"
    unfolding f by (rule mmer_at_cong [symmetric]) (rule computeNewMinimizer_frame(1))
  have "\<forall>j<nbMinimizers ?M. mmer_at ?M c j = kc_value (minimizer ?k) \<and>
        kc_value (minimizer ?k) < mm_mask ?M \<longrightarrow> int (nbMinimizers ?M - 1 - j) \<le> position ?k"
    using computeNewMinimizer_result [OF model_K3_m2(1) m, of c] unfolding f [symmetric] by blast
  then have "(0::nat) < 2 \<longrightarrow> mmer_at ?M c 0 = 0 \<and> (0::nat) < 15 \<longrightarrow> int (2 - 1 - 0) \<le> position ?k"
    unfolding model_K3_m2(3,4) v by (rule spec [of _ 0])
  then have "int (nbMinimizers ?M - 1 - 0) \<le> position ?k"
    using atc at(1) by (simp add: model_K3_m2(3))
  moreover have "position ?k < 2" using inv v unfolding minimizer_inv_def
    by (simp add: model_K3_m2(3,4))
  ultimately have p: "position ?k = 1" by (simp add: model_K3_m2(3))
  have t: "table0 ?k' = 0"
    using ModelCanonical_next_table0 [of 32 3 "kmerModel ?M" 0 ?k True]
      ModelMinimizer_new_Inr(3) [OF model_K3_m2(1)]
    by (simp add: ModelMinimizer_next_base(2) first_AAA)
  have at': "mmer_at ?M ?k' 0 = 0" "mmer_at ?M ?k' (Suc 0) = 0"
    by (simp_all add: mmer_at_K3_m2 t revcomp_numeral comp_NT_def)
  have "position ?k' = 0"
    using ModelMinimizer_next_cases [of ?M 0 ?k True] by (simp add: at' v p)
  then show ?thesis using p at' by simp
qed

text \<open>
  The theorem is about the model over \<^verbatim>\<open>ModelCanonical\<close>. Over \<^verbatim>\<open>ModelDirect\<close> the m-mers are
  compared as they are, without the lookup table: for \<open>CTG\<close> (value 27, \<open>K = 3\<close>, \<open>m = 2\<close>) the
  m-mers are \<open>TG\<close> = 11 and \<open>CT\<close> = 6 and the minimizer is 6, where the table entries are 4
  and 3.
\<close>

lemma md_minimizer_update [simp]:
  "md_minimizer ((k::KmerMinimizerDirect)\<lparr>md_minimizer := x\<rparr>) = x"
  "md_minimizer (k\<lparr>kd_value := a\<rparr>) = md_minimizer k"
  "md_minimizer (k\<lparr>md_position := d\<rparr>) = md_minimizer k"
  "md_minimizer (k\<lparr>md_changed := e\<rparr>) = md_minimizer k"
  "kd_value (k\<lparr>md_minimizer := x\<rparr>) = kd_value k"
  "md_position (k\<lparr>md_minimizer := x\<rparr>) = md_position k"
  by (cases k, simp)+

lemma minimizer_direct_raw_mmer:
  "getMinimizerValue_direct (projr (ModelMinimizer_new 32 3 2)) 27 = 6 \<and>
   mmer_lut (projr (ModelMinimizer_new 32 3 2)) ! 11 = 4 \<and>
   mmer_lut (projr (ModelMinimizer_new 32 3 2)) ! 6 = 3"
proof -
  let ?M = "projr (ModelMinimizer_new 32 3 2)"
  have d: "kd_value (minimizerDefault_direct ?M) = 15"
    using minimizer_sizes(3) [OF model_K3_m2(1)]
    by (simp add: minimizerDefault_direct_def ComparatorMinimizer_init_def getKmerMax_def)
  have r: "rev [0..<nbMinimizers ?M] = [1, 0]" by (simp add: model_K3_m2(3) upt2)
  have a: "(27::nat) AND 15 = 11" "Type_shr 27 2 AND 15 = (6::nat)"
    by (simp_all add: Type_shr_def)
  have g: "getMinimizerValue_direct ?M 27 = 6"
    unfolding getMinimizerValue_direct_def computeNewMinimizer_direct_def Let_def r
    by (simp add: computeNewMinimizer_direct_step_def KmerDirect_extractShift_def KmerDirect_extract_def
          ComparatorMinimizer_lt_def model_K3_m2(4) d a getVal_def Let_def)
  have m: "(2::nat) \<le> 15" "(11::nat) < 4 ^ 2" "(6::nat) < 4 ^ 2" by simp_all
  have l11: "mmer_lut ?M ! 11 = 4"
    using mmer_lut_nth [OF model_K3_m2(1) m(1) m(2)]
    by (simp add: is_allowed_len2 revcomp_numeral comp_NT_def)
  have l6: "mmer_lut ?M ! 6 = 3"
    using mmer_lut_nth [OF model_K3_m2(1) m(1) m(3)]
    by (simp add: is_allowed_len2 revcomp_numeral comp_NT_def)
  show ?thesis using g l11 l6 by (intro conjI)
qed

section \<open>A super k-mer read back: the strands come back exchanged\<close>

text \<open>
  C2. The claim is that \<open>load\<close> of the two values that \<open>save\<close> emits returns the run of
  k-mers element by element, equal on (forward, revcomp). The code does not do that:
  \<open>load\<close> calls \<^verbatim>\<open>kmers[ii].set (rev_temp, temp)\<close> where \<^verbatim>\<open>set\<close> takes (forward, revcomp), so
  each k-mer comes back with its two strands exchanged. For the run made of the single
  k-mer \<open>CAT\<close> (\<open>K = 3\<close>, \<open>m = 2\<close>, a \<open>Type\<close> of 64 bits), forward 18 and revcomp 11, \<open>save\<close>
  emits \<open>2 ^ 56\<close> (the count 1 in the top 8 bits, no further symbol) and the seed 18, and
  \<open>load\<close> of these into a fresh SuperKmer stores forward 11 and revcomp 18.
\<close>

theorem load_swaps_strands:
  "forward (snd (ModelMinimizer_first (projr (ModelMinimizer_new 32 3 2)) ConvertASCII (ascii ''CAT'')
      KmerMinimizer_new)) = 18 \<and>
   revcomp_of (snd (ModelMinimizer_first (projr (ModelMinimizer_new 32 3 2)) ConvertASCII (ascii ''CAT'')
      KmerMinimizer_new)) = 11 \<and>
   save 32 \<lparr>sk_kmerSize = 3, sk_miniSize = 2, sk_minimizer = 2,
        kmers = [snd (ModelMinimizer_first (projr (ModelMinimizer_new 32 3 2)) ConvertASCII
          (ascii ''CAT'') KmerMinimizer_new)],
        range = (0, 0)\<rparr> [] = [2 ^ 56, 18] \<and>
   forward (kmers (load 32 (SuperKmer_new 3 2 [])
      (save 32 \<lparr>sk_kmerSize = 3, sk_miniSize = 2, sk_minimizer = 2,
           kmers = [snd (ModelMinimizer_first (projr (ModelMinimizer_new 32 3 2)) ConvertASCII
             (ascii ''CAT'') KmerMinimizer_new)],
           range = (0, 0)\<rparr> [] ! 0)
      (save 32 \<lparr>sk_kmerSize = 3, sk_miniSize = 2, sk_minimizer = 2,
           kmers = [snd (ModelMinimizer_first (projr (ModelMinimizer_new 32 3 2)) ConvertASCII
             (ascii ''CAT'') KmerMinimizer_new)],
           range = (0, 0)\<rparr> [] ! 1)) ! 0) = 11 \<and>
   revcomp_of (kmers (load 32 (SuperKmer_new 3 2 [])
      (save 32 \<lparr>sk_kmerSize = 3, sk_miniSize = 2, sk_minimizer = 2,
           kmers = [snd (ModelMinimizer_first (projr (ModelMinimizer_new 32 3 2)) ConvertASCII
             (ascii ''CAT'') KmerMinimizer_new)],
           range = (0, 0)\<rparr> [] ! 0)
      (save 32 \<lparr>sk_kmerSize = 3, sk_miniSize = 2, sk_minimizer = 2,
           kmers = [snd (ModelMinimizer_first (projr (ModelMinimizer_new 32 3 2)) ConvertASCII
             (ascii ''CAT'') KmerMinimizer_new)],
           range = (0, 0)\<rparr> [] ! 1)) ! 0) = 18"
proof -
  let ?M = "projr (ModelMinimizer_new 32 3 2)"
  let ?k = "snd (ModelMinimizer_first ?M ConvertASCII (ascii ''CAT'') KmerMinimizer_new)"
  let ?src = "\<lparr>sk_kmerSize = 3, sk_miniSize = 2, sk_minimizer = 2, kmers = [?k], range = (0, 0)\<rparr>"
  let ?dst = "SuperKmer_new 3 2 []"
  have p: "minimizer_produced ?M ?k" by (rule m_first)
  have t1: "table1 ?k = 11"
    using minimizer_produced_pair [OF model_K3_m2(1) p]
    by (simp add: first_CAT_minimizer revcomp_numeral comp_NT_def)
  have cs: "\<forall>c\<in>set ([] :: (nat \<times> bool) list). fst c < 4" by simp
  have run: "map (sk_at ?src) [0..<sk_size ?src] = kmers_from ?M ?k []"
    by (simp add: sk_size_def sk_at_def)
  have cap: "2 * length ([] :: (nat \<times> bool) list) + 8 \<le> Type_getSize 32" by (simp add: Type_getSize_def)
  have L: "Suc (length ([] :: (nat \<times> bool) list)) \<le> 255" by simp
  have d: "sk_kmerSize ?dst = 3" "length ([] :: (nat \<times> bool) list) < length (kmers ?dst)"
    by (simp_all add: SuperKmer_new_def Let_def resize_def)
  have "kmers (load 32 ?dst (save 32 ?src [] ! length ([] :: Type list))
           (save 32 ?src [] ! Suc (length ([] :: Type list)))) ! 0
       = set2 (table1 (kmers_from ?M ?k [] ! 0)) (table0 (kmers_from ?M ?k [] ! 0)) (kmers ?dst ! 0)"
    using model_K3_m2(1) p cs run cap L d by (rule load_save) simp
  then have "kmers (load 32 ?dst (save 32 ?src [] ! 0) (save 32 ?src [] ! 1)) ! 0
       = set2 11 18 (kmers ?dst ! 0)"
    by (simp add: t1 first_CAT_minimizer)
  then have ld: "forward (kmers (load 32 ?dst (save 32 ?src [] ! 0) (save 32 ?src [] ! 1)) ! 0) = 11"
    "revcomp_of (kmers (load 32 ?dst (save 32 ?src [] ! 0) (save 32 ?src [] ! 1)) ! 0) = 18"
    by (simp_all add: forward_def revcomp_of_def set2_fields)
  have sz: "sk_size ?src = Suc 0" by (simp add: sk_size_def)
  have sv: "save 32 ?src [] = [2 ^ 56, 18]"
    using save_value [OF sz, of 32 "[]"]
    by (simp add: Type_getSize_def forward_def sk_at_def first_CAT_minimizer)
  have fr: "forward ?k = 18" "revcomp_of ?k = 11"
    by (simp_all add: forward_def revcomp_of_def t1 first_CAT_minimizer)
  show ?thesis using fr sv ld by (intro conjI)
qed

text \<open>
  The same holds of every run that fits the format (\<open>L \<le> 255\<close> and \<open>2 (L - 1) + 8\<close> at most the
  number of bits of \<open>Type\<close>), read into a vector that holds \<open>L\<close> k-mers: \<open>load\<close> recovers the
  two strand values of each k-mer of the run and stores them in the opposite order.
\<close>

lemma load_exchanges_every_kmer:
  assumes "ModelMinimizer_new span K m = Inr M"
    and "minimizer_produced M k"
    and "\<forall>c\<in>set cs. fst c < 4"
    and "map (sk_at src) [0..<sk_size src] = kmers_from M k cs"
    and "2 * length cs + 8 \<le> Type_getSize span"
    and "Suc (length cs) \<le> 255"
    and "sk_kmerSize dst = K" "length cs < length (kmers dst)"
    and "i \<le> length cs"
  shows "forward (kmers (load span dst (save span src bag ! length bag)
                          (save span src bag ! Suc (length bag))) ! i)
           = revcomp_of (kmers_from M k cs ! i) \<and>
         revcomp_of (kmers (load span dst (save span src bag ! length bag)
                          (save span src bag ! Suc (length bag))) ! i)
           = forward (kmers_from M k cs ! i)"
  unfolding load_save [OF assms] by (simp add: forward_def revcomp_of_def set2_fields)

text \<open>
  The format has room for \<open>(bits - 8) / 2 + 1\<close> k-mers, and a run of 30 k-mers does not
  fit: with a \<open>Type\<close> of 64 bits the count takes the bits 56 to 63 and the 29 symbols
  after the first k-mer take the bits 0 to 57. For the 30 k-mers
  \<open>AAA\<close> of a sequence of 32 \<open>A\<close> (\<open>K = 3\<close>, \<open>m = 2\<close>, all with the minimizer \<open>AA\<close>), \<open>load\<close> reads
  the low bits of the count as the first symbol, and the second k-mer comes back as
  \<open>(10, 2)\<close> where the run has \<open>(0, 42)\<close>.
\<close>

lemma superkmer_capacity_overflow:
  "length (kmers_from (projr (ModelMinimizer_new 32 3 2))
      (snd (ModelMinimizer_first (projr (ModelMinimizer_new 32 3 2)) ConvertASCII (ascii ''AAA'')
         KmerMinimizer_new)) (replicate 29 (0, True))) = 30 \<and>
   map (kc_value \<circ> minimizer) (kmers_from (projr (ModelMinimizer_new 32 3 2))
      (snd (ModelMinimizer_first (projr (ModelMinimizer_new 32 3 2)) ConvertASCII (ascii ''AAA'')
         KmerMinimizer_new)) (replicate 29 (0, True))) = replicate 30 0 \<and>
   forward (kmers_from (projr (ModelMinimizer_new 32 3 2))
      (snd (ModelMinimizer_first (projr (ModelMinimizer_new 32 3 2)) ConvertASCII (ascii ''AAA'')
         KmerMinimizer_new)) (replicate 29 (0, True)) ! 1) = 0 \<and>
   revcomp_of (kmers_from (projr (ModelMinimizer_new 32 3 2))
      (snd (ModelMinimizer_first (projr (ModelMinimizer_new 32 3 2)) ConvertASCII (ascii ''AAA'')
         KmerMinimizer_new)) (replicate 29 (0, True)) ! 1) = 42 \<and>
   save 32 \<lparr>sk_kmerSize = 3, sk_miniSize = 2, sk_minimizer = 0,
        kmers = kmers_from (projr (ModelMinimizer_new 32 3 2))
          (snd (ModelMinimizer_first (projr (ModelMinimizer_new 32 3 2)) ConvertASCII (ascii ''AAA'')
             KmerMinimizer_new)) (replicate 29 (0, True)),
        range = (0, 29)\<rparr> [] = [30 * 2 ^ 56, 0] \<and>
   forward (kmers (load 32 \<lparr>sk_kmerSize = 3, sk_miniSize = 2, sk_minimizer = 0,
        kmers = kmers_from (projr (ModelMinimizer_new 32 3 2))
          (snd (ModelMinimizer_first (projr (ModelMinimizer_new 32 3 2)) ConvertASCII (ascii ''AAA'')
             KmerMinimizer_new)) (replicate 29 (0, True)),
        range = (0, 29)\<rparr> (30 * 2 ^ 56) 0) ! 1) = 10 \<and>
   revcomp_of (kmers (load 32 \<lparr>sk_kmerSize = 3, sk_miniSize = 2, sk_minimizer = 0,
        kmers = kmers_from (projr (ModelMinimizer_new 32 3 2))
          (snd (ModelMinimizer_first (projr (ModelMinimizer_new 32 3 2)) ConvertASCII (ascii ''AAA'')
             KmerMinimizer_new)) (replicate 29 (0, True)),
        range = (0, 29)\<rparr> (30 * 2 ^ 56) 0) ! 1) = 2"
proof -
  let ?M = "projr (ModelMinimizer_new 32 3 2)"
  let ?k = "snd (ModelMinimizer_first ?M ConvertASCII (ascii ''AAA'') KmerMinimizer_new)"
  let ?ks = "kmers_from ?M ?k (replicate 29 (0, True))"
  let ?src = "\<lparr>sk_kmerSize = 3, sk_miniSize = 2, sk_minimizer = 0, kmers = ?ks, range = (0, 29)\<rparr>"
  have len: "length ?ks = 30" by (simp add: kmers_from_length)
  have mins: "map (kc_value \<circ> minimizer) ?ks = replicate 30 0"
    using len by (intro nth_equalityI) (simp_all add: run_AAA(3))
  have f1: "forward (?ks ! 1) = 0" by (simp add: forward_def run_AAA(1))
  have r1: "revcomp_of (?ks ! 1) = 42" by (simp add: revcomp_of_def run_AAA(2))
  have sz: "sk_size ?src = 30" by (simp add: sk_size_def)
  have "\<forall>ii\<in>set [1..<sk_size ?src]. forward (sk_at ?src ii) AND 3 = 0"
    unfolding sz by (simp add: forward_def sk_at_def run_AAA(1))
  then have pz: "foldl (\<lambda>p ii. Type_shl 32 p 2 OR (forward (sk_at ?src ii) AND 3)) 0 [1..<sk_size ?src] = 0"
    by (rule payload_zero)
  have hi: "Type_shl 32 (Type_wrap 32 30) (Type_getSize 32 - 8) = 30 * 2 ^ 56"
    by (simp add: Type_shl_def Type_wrap_def Type_getSize_def)
  have sv: "save 32 ?src [] = [30 * 2 ^ 56, 0]"
    unfolding save_def Let_def pz unfolding sz hi
    using run_AAA(1) [of 0] by (simp add: forward_def sk_at_def)
  have nbK: "getVal (Type_shr (30 * 2 ^ 56) (Type_getSize 32 - 8)) AND 255 = 30"
    by (simp add: Type_shr_def getVal_def Type_getSize_def)
  have msk: "Type_sub 32 (Type_shl 32 (Suc 0) 6) (Suc 0) = 63"
    using Type_mask_value [of 3 32] by simp
  have rc: "revcomp 0 3 = 42" by (simp add: revcomp_numeral comp_NT_def)
  have ld: "kmers (load 32 ?src (30 * 2 ^ 56) 0) = load_loop 32 63 4 (30 * 2 ^ 56) 30 0 30 0 42 ?ks"
    unfolding load_def Let_def nbK by (simp add: msk rc)
  have d1: "kmers (load 32 ?src (30 * 2 ^ 56) 0) ! 1 = set2 10 2 (?ks ! 1)"
    unfolding ld using len by (intro load_loop_two) simp
  have "forward (kmers (load 32 ?src (30 * 2 ^ 56) 0) ! 1) = 10"
    "revcomp_of (kmers (load 32 ?src (30 * 2 ^ 56) 0) ! 1) = 2"
    unfolding d1 by (simp_all add: forward_def revcomp_of_def set2_fields)
  then show ?thesis using len mins f1 r1 sv by (intro conjI)
qed

section \<open>Validity of the delivered k-mers\<close>

text \<open>
  C4. During iteration (over at most \<open>2 ^ 31 - 1\<close> symbols) the k-mer with output index \<open>j\<close>
  is delivered as valid exactly when none of the \<open>K\<close> symbols of its window, the input
  indices \<open>j\<close> to \<open>j + K - 1\<close>, is invalid; this for the direct, the canonical and the
  minimizer model. For \<open>K = 4\<close> and the ASCII input ACGNACGT, \<open>iterate\<close> makes exactly 5 calls,
  the first four with an invalid k-mer and the fifth with a valid one of value 30.
\<close>

theorem iterate_valid_iff_window_clean:
  assumes "ModelAbstract_new span K = Inr M" "ModelMinimizer_new span K m = Inr MM"
    and "1 \<le> K" "K \<le> data_size d" "data_size d < 2 ^ 31" "j \<le> data_size d - K"
  shows "(kd_isValid (fst (snd (ModelDirect_iterate M d) ! j))
            \<longleftrightarrow> (\<forall>i. j \<le> i \<and> i < j + K \<longrightarrow> snd (decode d i) = 0)) \<and>
         (isValid (fst (snd (ModelCanonical_iterate M d) ! j))
            \<longleftrightarrow> (\<forall>i. j \<le> i \<and> i < j + K \<longrightarrow> snd (decode d i) = 0)) \<and>
         (isValid (fst (snd (ModelMinimizer_iterate MM d) ! j))
            \<longleftrightarrow> (\<forall>i. j \<le> i \<and> i < j + K \<longrightarrow> snd (decode d i) = 0)) \<and>
         ModelDirect_iterate (projr (ModelAbstract_new 32 4))
             \<lparr>getBuffer = ascii ''ACGNACGT'', data_size = 8, getEncoding = ASCII\<rparr>
           = (True, [(\<lparr>kd_value = 31, kd_isValid = False\<rparr>, 0),
                     (\<lparr>kd_value = 124, kd_isValid = False\<rparr>, 1),
                     (\<lparr>kd_value = 241, kd_isValid = False\<rparr>, 2),
                     (\<lparr>kd_value = 199, kd_isValid = False\<rparr>, 3),
                     (\<lparr>kd_value = 30, kd_isValid = True\<rparr>, 4)])"
proof -
  note M = ModelAbstract_new_Inr [OF assms(1)]
  note MM = ModelMinimizer_new_Inr [OF assms(2)]
  have km: "kmerSize (kmerModel MM) = K" by (rule ModelAbstract_new_Inr(3) [OF MM(3)])
  show ?thesis
    using direct_valid [OF M(3) assms(5,3,4,6)] canonical_valid [OF M(3) assms(5,3,4,6)]
      minimizer_valid [OF MM(5) km assms(5,3,4,6)] iterate_ACGNACGT
    by simp
qed

theorem iterate_valid_iff_window_clean_witness:
  "kd_isValid (fst (snd (ModelDirect_iterate (projr (ModelAbstract_new 32 4))
       \<lparr>getBuffer = ascii ''ACGNACGT'', data_size = 8, getEncoding = ASCII\<rparr>) ! 4)) \<and>
   isValid (fst (snd (ModelCanonical_iterate (projr (ModelAbstract_new 32 4))
       \<lparr>getBuffer = ascii ''ACGNACGT'', data_size = 8, getEncoding = ASCII\<rparr>) ! 4)) \<and>
   snd (decode \<lparr>getBuffer = ascii ''ACGNACGT'', data_size = 8, getEncoding = ASCII\<rparr> 3) = 1 \<and>
   \<not> isValid (fst (snd (ModelMinimizer_iterate (projr (ModelMinimizer_new 32 4 2))
       \<lparr>getBuffer = ascii ''ACGNACGT'', data_size = 8, getEncoding = ASCII\<rparr>) ! 0))"
proof -
  let ?d = "\<lparr>getBuffer = ascii ''ACGNACGT'', data_size = 8, getEncoding = ASCII\<rparr>"
  have M: "ModelAbstract_new 32 4 = Inr (projr (ModelAbstract_new 32 4))" by (simp add: model_K4)
  have MM: "ModelMinimizer_new 32 4 2 = Inr (projr (ModelMinimizer_new 32 4 2))"
    by (rule ModelMinimizer_new_ok) simp_all
  have dec: "decode ?d 3 = (3, 1)" "decode ?d 4 = (0, 0)" "decode ?d 5 = (1, 0)"
    "decode ?d 6 = (3, 0)" "decode ?d 7 = (2, 0)"
    by (simp_all add: decode_def execute_def ascii_ACGNACGT conv_ACGNACGT)
  have bad: "\<not> (\<forall>i. 0 \<le> i \<and> i < 0 + 4 \<longrightarrow> snd (decode ?d i) = 0)"
    using dec(1) by (auto intro: exI [of _ 3])
  have good: "\<forall>i. 4 \<le> i \<and> i < 4 + 4 \<longrightarrow> snd (decode ?d i) = 0"
  proof (intro allI impI)
    fix i :: nat assume "4 \<le> i \<and> i < 4 + 4"
    then have "i = 4 \<or> i = 5 \<or> i = 6 \<or> i = 7" by auto
    then show "snd (decode ?d i) = 0" using dec by auto
  qed
  show ?thesis
    using iterate_valid_iff_window_clean [OF M MM, of ?d 4]
      iterate_valid_iff_window_clean [OF M MM, of ?d 0] bad good dec(1)
    by simp
qed

section \<open>Enough input: iterate and build\<close>




text \<open>
  Beyond \<open>2 ^ 31\<close> symbols the count \<open>nbKmers\<close> no longer fits its 32-bit type: with
  \<open>2 ^ 31 + 2\<close> symbols and \<open>K = 3\<close> it wraps to a negative number, and nothing is delivered.
\<close>

lemma iterate_int32_wrap:
  "iterate first_impl next_impl r0 3 conv seq (2 ^ 31 + 2) = (False, [])"
  by (simp add: iterate_def int32_of_def)

section \<open>The lookup table folds an m-mer and its reverse complement\<close>

text \<open>
  C7. For every minimizer model with m-mer size \<open>m\<close> (\<open>2 \<le> m \<le> 15\<close>, the sizes for which the
  constructor's table loop and \<open>is_allowed\<close> are defined) and every index \<open>x\<close> below
  \<open>1 << 2m\<close>: the table entry of \<open>x\<close> is \<open>min (x, RC (x, m))\<close> when that m-mer is allowed, and
  the sentinel \<open>mmerMask = (1 << 2m) - 1\<close> otherwise; so \<open>x\<close> and \<open>RC (x, m)\<close> have the same
  entry.
\<close>

theorem mmer_lut_canonical_folding:
  assumes "ModelMinimizer_new span K m = Inr M" "2 \<le> m" "m \<le> 15" "x < 4 ^ m"
  shows "mmer_lut M ! x =
           (if is_allowed (word_of_nat (min x (revcomp x m))) (word_of_nat m)
            then min x (revcomp x m) else mm_mask M) \<and>
         mm_mask M = 2 ^ (2 * m) - 1 \<and>
         mmer_lut M ! x = mmer_lut M ! (revcomp x m)"
proof -
  have r: "revcomp x m < 4 ^ m" by (rule revcomp_lt)
  have "revcomp (revcomp x m) m = x" using assms(4) by (simp add: revcomp_invol)
  then have c: "min (revcomp x m) (revcomp (revcomp x m) m) = min x (revcomp x m)"
    by (simp add: min.commute)
  show ?thesis
    using mmer_lut_nth [OF assms(1,3,4)] mmer_lut_nth [OF assms(1,3) r]
      minimizer_sizes(1) [OF assms(1,3)]
    by (simp only: c pow4_eq)
qed

theorem mmer_lut_canonical_folding_witness:
  "mmer_lut (projr (ModelMinimizer_new 32 3 2)) ! 4 = mmer_lut (projr (ModelMinimizer_new 32 3 2)) ! 11 \<and>
   mm_mask (projr (ModelMinimizer_new 32 3 2)) = 15 \<and> revcomp 4 2 = 11"
proof -
  have M: "ModelMinimizer_new 32 3 2 = Inr (projr (ModelMinimizer_new 32 3 2))"
    by (rule ModelMinimizer_new_ok) simp_all
  have r: "revcomp 4 2 = 11" by (simp add: revcomp_numeral comp_NT_def)
  have m: "(2::nat) \<le> 2" "(2::nat) \<le> 15" "(4::nat) < 4 ^ 2" by simp_all
  show ?thesis using mmer_lut_canonical_folding [OF M m] by (simp add: r)
qed

section \<open>The allowed m-mers\<close>

text \<open>
  C8. For \<open>2 \<le> m \<le> 17\<close> (the sizes for which the shift of \<open>is_allowed\<close> is defined) and
  every m-mer bit pattern \<open>x\<close>, \<open>is_allowed\<close> returns true exactly when \<open>x\<close> has no two
  consecutive digits A (00) at the digit positions \<open>j, j + 1\<close> with \<open>j + 1 \<le> m - 2\<close>, that is
  anywhere but in the top two positions; and exactly when the bit test
  \<open>t = ~(x | (x >> 2)); t = ((t >> 1) & t) & masklow & 0x5555\<dots>5\<close>, with
  \<open>masklow = (1 << 2(m - 2)) - 1\<close>, yields \<open>t = 0\<close>.
\<close>

theorem is_allowed_no_AA_below_top:
  assumes "2 \<le> m" "m \<le> 17"
  shows "(is_allowed (word_of_nat x) (word_of_nat m) \<longleftrightarrow>
            \<not> (\<exists>j. j + 2 < m \<and> (x div 4 ^ j) mod 4 = 0 \<and> (x div 4 ^ (j + 1)) mod 4 = 0)) \<and>
         (is_allowed (word_of_nat x) (word_of_nat m) \<longleftrightarrow>
            ((drop_bit 1 (NOT ((word_of_nat x :: 64 word) OR drop_bit 2 (word_of_nat x)))
                AND NOT ((word_of_nat x :: 64 word) OR drop_bit 2 (word_of_nat x)))
              AND (push_bit (2 * (m - 2)) 1 - 1)) AND 0x5555555555555555 = 0)"
proof -
  have le: "2 * (m - 2) \<le> 30" using assms by simp
  let ?P = "\<forall>n. \<not> (even n \<and> n < 2 * (m - 2) \<and> \<not> bit x n \<and> \<not> bit x (n + 1) \<and> \<not> bit x (n + 2) \<and> \<not> bit x (n + 3))"
  have code: "is_allowed (word_of_nat x) (word_of_nat m) \<longleftrightarrow> ?P"
  proof -
    have "is_allowed (word_of_nat x) (word_of_nat m) \<longleftrightarrow>
      (drop_bit 1 (NOT (ucast (word_of_nat x :: 32 word) OR drop_bit 2 (ucast (word_of_nat x :: 32 word))))
         AND NOT (ucast (word_of_nat x :: 32 word) OR drop_bit 2 (ucast (word_of_nat x :: 32 word))))
       AND (0x5555555555555555 AND mask (2 * (m - 2))) = (0 :: 64 word)"
      unfolding is_allowed_def Let_def mmask_m1_value [OF assms] by simp
    also have "\<dots> \<longleftrightarrow> ?P"
      by (rule bit_test [OF _ le]) (simp add: bit_mmer64)
    finally show ?thesis .
  qed
  have msk: "(push_bit (2 * (m - 2)) 1 - 1 :: 64 word) = mask (2 * (m - 2))"
    by (simp add: mask_eq_exp_minus_1 push_bit_of_1)
  have spec: "((drop_bit 1 (NOT ((word_of_nat x :: 64 word) OR drop_bit 2 (word_of_nat x)))
                AND NOT ((word_of_nat x :: 64 word) OR drop_bit 2 (word_of_nat x)))
              AND (push_bit (2 * (m - 2)) 1 - 1)) AND 0x5555555555555555 = 0 \<longleftrightarrow> ?P"
  proof -
    have x64: "bit (word_of_nat x :: 64 word) n = bit x n" if "n < 32" for n
      using that by (simp add: bit_simps)
    have "((drop_bit 1 (NOT ((word_of_nat x :: 64 word) OR drop_bit 2 (word_of_nat x)))
                AND NOT ((word_of_nat x :: 64 word) OR drop_bit 2 (word_of_nat x)))
              AND (push_bit (2 * (m - 2)) 1 - 1)) AND 0x5555555555555555
       = (drop_bit 1 (NOT ((word_of_nat x :: 64 word) OR drop_bit 2 (word_of_nat x)))
                AND NOT ((word_of_nat x :: 64 word) OR drop_bit 2 (word_of_nat x)))
              AND (0x5555555555555555 AND mask (2 * (m - 2)))"
      unfolding msk by (simp only: and.assoc and.commute and.left_commute)
    then show ?thesis using bit_test [of "word_of_nat x" x, OF x64 le] by simp
  qed
  have A: "is_allowed (word_of_nat x) (word_of_nat m) \<longleftrightarrow>
      \<not> (\<exists>j. j + 2 < m \<and> (x div 4 ^ j) mod 4 = 0 \<and> (x div 4 ^ (j + 1)) mod 4 = 0)"
    unfolding code by (rule no_AA_bits)
  have B: "is_allowed (word_of_nat x) (word_of_nat m) \<longleftrightarrow>
      ((drop_bit 1 (NOT ((word_of_nat x :: 64 word) OR drop_bit 2 (word_of_nat x)))
                AND NOT ((word_of_nat x :: 64 word) OR drop_bit 2 (word_of_nat x)))
              AND (push_bit (2 * (m - 2)) 1 - 1)) AND 0x5555555555555555 = 0"
    unfolding code spec ..
  show ?thesis using A B by (rule conjI)
qed

theorem is_allowed_no_AA_below_top_witness:
  "\<not> is_allowed 65 4 \<and> is_allowed 5 4 \<and> (65 div 4 ^ 1) mod 4 = (0::nat) \<and> (65 div 4 ^ 2) mod 4 = (0::nat)"
proof -
  have m: "(2::nat) \<le> 4" "(4::nat) \<le> 17" by simp_all
  have "(1::nat) + 2 < 4 \<and> (65 div 4 ^ 1) mod 4 = (0::nat) \<and> (65 div 4 ^ (1 + 1)) mod 4 = (0::nat)"
    by simp
  then have ex: "\<exists>j. j + 2 < 4 \<and> (65 div 4 ^ j) mod 4 = (0::nat) \<and> (65 div 4 ^ (j + 1)) mod 4 = (0::nat)"
    by (rule exI [of _ 1])
  have no: "\<not> (\<exists>j. j + 2 < 4 \<and> (5 div 4 ^ j) mod 4 = (0::nat) \<and> (5 div 4 ^ (j + 1)) mod 4 = (0::nat))"
  proof
    assume "\<exists>j. j + 2 < 4 \<and> (5 div 4 ^ j) mod 4 = (0::nat) \<and> (5 div 4 ^ (j + 1)) mod 4 = (0::nat)"
    then obtain j :: nat where j: "j + 2 < 4" "(5 div 4 ^ j) mod 4 = (0::nat)" by auto
    then have "j = 0 \<or> j = 1" by auto
    then show False using j(2) by auto
  qed
  show ?thesis
    using is_allowed_no_AA_below_top [OF m, of 65] is_allowed_no_AA_below_top [OF m, of 5] ex no
    by simp
qed

section \<open>codeSeedRight\<close>

text \<open>
  C9. \<open>codeSeedRight\<close> takes the valid flag of its result from the new nucleotide alone:
  whatever the previous k-mer is (valid or not), the result is valid exactly when the
  decoder of the encoding reports the nucleotide as valid. The countdown over the window
  is kept by \<open>iterate\<close> only.
\<close>

theorem codeSeedRight_valid_from_nucleotide:
  "kd_isValid (ModelDirect_codeSeedRight Md kd nucl enc) = (snd (execute enc (\<lambda>conv. conv [nucl] 0)) = 0) \<and>
   isValid (ModelCanonical_codeSeedRight Mc kc nucl enc) = (snd (execute enc (\<lambda>conv. conv [nucl] 0)) = 0) \<and>
   isValid (ModelMinimizer_codeSeedRight Mm km nucl enc) = (snd (execute enc (\<lambda>conv. conv [nucl] 0)) = 0)"
  by (cases enc)
    (simp_all add: ModelDirect_codeSeedRight_def ModelCanonical_codeSeedRight_def
      ModelMinimizer_codeSeedRight_def execute_def ModelDirect_next_def ModelCanonical_next_def
      ModelMinimizer_next_def updateChoice_def Let_def computeNewMinimizer_frame)

section \<open>The frame of computeNewMinimizer\<close>

text \<open>
  C10. \<open>computeNewMinimizer\<close> never modifies the forward and revcomp values of the k-mer it
  is given (it peels the m-mers off a local copy): after it returns, only the minimizer,
  the position and the changed flag of the k-mer may differ.
\<close>

theorem computeNewMinimizer_keeps_kmer:
  "forward (computeNewMinimizer M kmer) = forward kmer \<and>
   revcomp_of (computeNewMinimizer M kmer) = revcomp_of kmer \<and>
   computeNewMinimizer M kmer =
     kmer\<lparr>minimizer := minimizer (computeNewMinimizer M kmer),
          position := position (computeNewMinimizer M kmer),
          changed := changed (computeNewMinimizer M kmer)\<rparr>"
  by (simp add: forward_def revcomp_of_def computeNewMinimizer_frame KmerMinimizer.equality)

end
